theory Spec2Isabelle
  imports Complex_Main "HOL-Library.Char_ord" "HOL-Library.List_Lexorder"
begin

section \<open>Data model of package align\<close>

text \<open>
  A symbol of a sequence is a Go \<^verbatim>\<open>rune\<close>. The alphabets of the program (nucleotides,
  amino acids and the control symbols) are ASCII, and symbols are modelled as
  8-bit characters; \<open>ascii\<close> below marks the symbols whose UTF-8 encoding is one byte.
\<close>

type_synonym rune = char

definition GAP :: rune where "GAP = CHR ''-''"
definition POINT :: rune where "POINT = CHR ''.''"
definition OTHER :: rune where "OTHER = CHR ''*''"

definition AMINOACIDS :: int where "AMINOACIDS = 0"
definition NUCLEOTIDS :: int where "NUCLEOTIDS = 1"
definition BOTH :: int where "BOTH = 2"
definition UNKNOWN :: int where "UNKNOWN = 3"

text \<open>
  \<^verbatim>\<open>seqmap map[string]*seq\<close> and \<^verbatim>\<open>seqs []*seq\<close> hold pointers to the same
  \<^verbatim>\<open>seq\<close> objects, and the operations mutate a sequence through either of them. A
  pointer is an address of the \<open>store\<close>; \<open>nextref\<close> is the next address that an
  allocation (\<^verbatim>\<open>NewSequence\<close>) returns. The field \<^verbatim>\<open>length\<close> of the Go struct is
  \<open>alength\<close> here.
\<close>

type_synonym ref = nat

record seq =
  name :: string
  sequence :: "rune list"
  comment :: string

record align =
  store :: "ref \<Rightarrow> seq"
  nextref :: ref
  seqmap :: "string \<rightharpoonup> ref"
  seqs :: "ref list"
  alphabet :: int
  alength :: int

text \<open>
  The values of Go's \<^verbatim>\<open>error\<close> that the operations build with \<^verbatim>\<open>errors.New\<close>, by the
  place that builds them. What a call does besides mutating the alignment: it returns,
  it panics (an index or a slice bound out of range, a negative length or repeat
  count), or it calls \<^verbatim>\<open>io.ExitWithMessage\<close> on an error. That function is not among
  the files at hand; by its name, and by its use in cmd/seq.go in the place of a return
  of the error, it reports the error and ends the process.
\<close>

datatype error =
    UnexpectedAlphabet
  | ShuffleRate
  | ShuffleRogueRate
  | ShuffleTooManySites int int int
  | SeqLengthMismatch string
  | TrimNegative
  | TrimTooLarge int
  | MaskStartNegative
  | MaskStartTooLarge
  | MaskWrongAlphabet
  | SiteOutsideAlignment
  | AlphabetMismatch
  | SeqNotInAlignment string
  | ConcatLengthMismatch
  | GeneticCodeUnknown

datatype 'a outcome = Panic | Exit error | Return 'a

definition Length :: "align \<Rightarrow> int" where
  "Length a = alength a"

definition NbSequences :: "align \<Rightarrow> nat" where
  "NbSequences a = length (seqs a)"

definition Alphabet :: "align \<Rightarrow> int" where
  "Alphabet a = alphabet a"

text \<open>Go's 64-bit \<^verbatim>\<open>int\<close>: the value of an arithmetic result after wrap-around.\<close>

definition int64 :: "int \<Rightarrow> int" where
  "int64 x = (x + 2 ^ 63) mod 2 ^ 64 - 2 ^ 63"

text \<open>
  A \<^verbatim>\<open>float64\<close>: not-a-number, an infinity, or a finite value, which \<open>Finite\<close> holds as
  a real number. The two zeros of IEEE-754 are one value here. The rounding of an
  arithmetic result to a \<^verbatim>\<open>float64\<close> is the parameter \<open>rnd\<close> of the operations, which
  gives an infinity where the result overflows; the properties below hold for every
  \<open>rnd\<close>.
\<close>

datatype float64 = NaN | PosInf | NegInf | Finite real

text \<open>The comparisons \<^verbatim>\<open>x < y\<close> and \<^verbatim>\<open>x > y\<close>, which are false when an operand is NaN.\<close>

fun flt :: "float64 \<Rightarrow> float64 \<Rightarrow> bool" where
  "flt (Finite a) (Finite b) = (a < b)"
| "flt (Finite a) PosInf = True"
| "flt NegInf (Finite b) = True"
| "flt NegInf PosInf = True"
| "flt _ _ = False"

definition fgt :: "float64 \<Rightarrow> float64 \<Rightarrow> bool" where
  "fgt x y = flt y x"

text \<open>The sign of a value other than NaN and zero.\<close>

fun positive :: "float64 \<Rightarrow> bool" where
  "positive (Finite a) = (0 < a)"
| "positive PosInf = True"
| "positive _ = False"

definition signed_inf :: "bool \<Rightarrow> float64" where
  "signed_inf pos = (if pos then PosInf else NegInf)"

text \<open>The product \<^verbatim>\<open>x * y\<close>: an infinity times zero is NaN.\<close>

fun fmul :: "(real \<Rightarrow> float64) \<Rightarrow> float64 \<Rightarrow> float64 \<Rightarrow> float64" where
  "fmul rnd (Finite a) (Finite b) = rnd (a * b)"
| "fmul rnd NaN y = NaN"
| "fmul rnd x NaN = NaN"
| "fmul rnd x y =
     (if x = Finite 0 \<or> y = Finite 0 then NaN else signed_inf (positive x = positive y))"

text \<open>The difference \<^verbatim>\<open>x - y\<close>: an infinity minus itself is NaN.\<close>

fun fsub :: "(real \<Rightarrow> float64) \<Rightarrow> float64 \<Rightarrow> float64 \<Rightarrow> float64" where
  "fsub rnd (Finite a) (Finite b) = rnd (a - b)"
| "fsub rnd NaN y = NaN"
| "fsub rnd x NaN = NaN"
| "fsub rnd PosInf PosInf = NaN"
| "fsub rnd NegInf NegInf = NaN"
| "fsub rnd PosInf y = PosInf"
| "fsub rnd NegInf y = NegInf"
| "fsub rnd x PosInf = NegInf"
| "fsub rnd x NegInf = PosInf"

text \<open>
  The quotient \<^verbatim>\<open>x / y\<close>, which does not panic: zero by zero and an infinity by an
  infinity are NaN, another value by zero is an infinity.
\<close>

fun fquot :: "(real \<Rightarrow> float64) \<Rightarrow> float64 \<Rightarrow> float64 \<Rightarrow> float64" where
  "fquot rnd (Finite a) (Finite b) =
     (if b = 0 then (if a = 0 then NaN else signed_inf (0 < a)) else rnd (a / b))"
| "fquot rnd NaN y = NaN"
| "fquot rnd x NaN = NaN"
| "fquot rnd (Finite a) y = Finite 0"
| "fquot rnd x (Finite b) = signed_inf (positive x = (0 \<le> b))"
| "fquot rnd x y = NaN"

text \<open>
  The conversion \<^verbatim>\<open>int(x)\<close> of a \<^verbatim>\<open>float64\<close>: it drops the fraction. Where the result
  is not a value of the 64-bit \<^verbatim>\<open>int\<close> (also for NaN and the infinities) the language
  leaves it to the implementation, which is the parameter \<open>conv\<close>.
\<close>

definition trunc :: "real \<Rightarrow> int" where
  "trunc x = (if 0 \<le> x then \<lfloor>x\<rfloor> else \<lceil>x\<rceil>)"



text \<open>
  The invariant of section 8 of the specification: every row has \<open>alength\<close> symbols.
  Since no row has a negative number of symbols, it leaves no row to an alignment of
  length \<open>-1\<close>. \<open>rectangular\<close> is the weaker form of section 3.
\<close>

definition rows_ok :: "align \<Rightarrow> bool" where
  "rows_ok a \<longleftrightarrow> (\<forall>p \<in> set (seqs a). int (length (sequence (store a p))) = alength a)"

definition rectangular :: "align \<Rightarrow> bool" where
  "rectangular a \<longleftrightarrow> alength a = -1 \<or> rows_ok a"

section \<open>NewAlign and the checks of ShuffleSites\<close>

definition no_seq :: seq where
  "no_seq = \<lparr>name = [], sequence = [], comment = []\<rparr>"

text \<open>The value \<^verbatim>\<open>&align{seqbag{make(map), make([]*seq, 0, 100), alphabet}, -1}\<close>.\<close>

definition empty_align :: "int \<Rightarrow> align" where
  "empty_align alpha =
     \<lparr>store = (\<lambda>_. no_seq), nextref = 0, seqmap = Map.empty, seqs = [],
      alphabet = alpha, alength = -1\<rparr>"

definition NewAlign :: "int \<Rightarrow> align outcome" where
  "NewAlign alpha =
     (if alpha = AMINOACIDS \<or> alpha = NUCLEOTIDS \<or> alpha = UNKNOWN then Return (empty_align alpha)
      else if alpha = BOTH then Return (empty_align NUCLEOTIDS)
      else Exit UnexpectedAlphabet)"


section \<open>TrimSequences\<close>

text \<open>
  The loop \<^verbatim>\<open>for _, seq := range a.seqs { seq.sequence = ... }\<close>: every pointer of
  \<open>seqs\<close> in turn, the row behind it replaced; \<open>None\<close> when the body panics.
\<close>

fun each_row :: "(rune list \<Rightarrow> rune list option) \<Rightarrow> ref list \<Rightarrow> (ref \<Rightarrow> seq) \<Rightarrow> (ref \<Rightarrow> seq) option" where
  "each_row f [] st = Some st"
| "each_row f (p # ps) st =
     (case f (sequence (st p)) of
        None \<Rightarrow> None
      | Some s \<Rightarrow> each_row f ps (st(p := (st p)\<lparr>sequence := s\<rparr>)))"

text \<open>
  \<^verbatim>\<open>seq.sequence[trimsize:len(seq.sequence)]\<close> and
  \<^verbatim>\<open>seq.sequence[0 : len(seq.sequence)-trimsize]\<close>: a slice expression whose bounds are
  out of order panics.
\<close>

definition trim_row :: "nat \<Rightarrow> bool \<Rightarrow> rune list \<Rightarrow> rune list option" where
  "trim_row t fromStart s =
     (if length s < t then None
      else Some (if fromStart then drop t s else take (length s - t) s))"

definition TrimSequences :: "int \<Rightarrow> bool \<Rightarrow> align \<Rightarrow> (error option \<times> align) outcome" where
  "TrimSequences trimsize fromStart a =
     (if trimsize < 0 then Return (Some TrimNegative, a)
      else if trimsize \<ge> Length a then Return (Some (TrimTooLarge (Length a)), a)
      else case each_row (trim_row (nat trimsize) fromStart) (seqs a) (store a) of
             None \<Rightarrow> Panic
           | Some st \<Rightarrow> Return (None, a\<lparr>store := st, alength := alength a - trimsize\<rparr>))"

section \<open>Mask\<close>

text \<open>
  The inner loop \<^verbatim>\<open>for i := start; i < (start+length) && i < a.Length(); i++\<close> over one
  row, as the list of the indices it visits; \<^verbatim>\<open>start+length\<close> is a 64-bit sum.
\<close>

fun mask_row :: "rune \<Rightarrow> nat list \<Rightarrow> rune list \<Rightarrow> rune list option" where
  "mask_row rep [] s = Some s"
| "mask_row rep (i # is) s =
     (if i < length s then mask_row rep is (s[i := rep]) else None)"

definition mask_indices :: "int \<Rightarrow> int \<Rightarrow> int \<Rightarrow> nat list" where
  "mask_indices start len alen =
     map nat [start .. min (int64 (start + len)) alen - 1]"

text \<open>
  The constants \<^verbatim>\<open>ALL_AMINO\<close> and \<^verbatim>\<open>ALL_NUCLE\<close> are not declared in the files at
  hand: they are parameters. When the alphabet is neither, the code records the error
  and goes on to the loop with \<^verbatim>\<open>rep := '.'\<close>.
\<close>

definition Mask :: "rune \<Rightarrow> rune \<Rightarrow> int \<Rightarrow> int \<Rightarrow> align \<Rightarrow> (error option \<times> align) outcome" where
  "Mask ALL_AMINO ALL_NUCLE start len a =
     (if start < 0 then Return (Some MaskStartNegative, a)
      else if start > Length a then Return (Some MaskStartTooLarge, a)
      else
        let (rep, err) =
              (if Alphabet a = AMINOACIDS then (ALL_AMINO, None)
               else if Alphabet a = NUCLEOTIDS then (ALL_NUCLE, None)
               else (CHR ''.'', Some MaskWrongAlphabet))
        in case each_row (mask_row rep (mask_indices start len (Length a))) (seqs a) (store a) of
             None \<Rightarrow> Panic
           | Some st \<Rightarrow> Return (err, a\<lparr>store := st\<rparr>))"

section \<open>Statistics: AvgAllelesPerSite and Entropy\<close>

text \<open>\<^verbatim>\<open>float64(a) / float64(b)\<close> on integers: a division by zero does not panic.\<close>

definition fdiv :: "int \<Rightarrow> int \<Rightarrow> float64" where
  "fdiv a b =
     (if b = 0 then (if a = 0 then NaN else if 0 < a then PosInf else NegInf)
      else Finite (real_of_int a / real_of_int b))"

text \<open>
  The inner loops \<^verbatim>\<open>for seq := 0; seq < a.NbSequences(); seq++\<close> that read
  \<^verbatim>\<open>a.seqs[seq].sequence[site]\<close>: the symbols of the column, or \<open>None\<close> when a row is
  too short and the index expression panics.
\<close>

fun read_column :: "(ref \<Rightarrow> seq) \<Rightarrow> nat \<Rightarrow> ref list \<Rightarrow> rune list option" where
  "read_column st site [] = Some []"
| "read_column st site (p # ps) =
     (if site < length (sequence (st p))
      then (case read_column st site ps of
              None \<Rightarrow> None
            | Some cs \<Rightarrow> Some (sequence (st p) ! site # cs))
      else None)"

definition is_allele :: "rune \<Rightarrow> bool" where
  "is_allele s \<longleftrightarrow> s \<noteq> GAP \<and> s \<noteq> POINT \<and> s \<noteq> OTHER"

fun alleles_loop :: "align \<Rightarrow> nat list \<Rightarrow> nat \<Rightarrow> nat \<Rightarrow> (nat \<times> nat) option" where
  "alleles_loop a [] nballeles nbsites = Some (nballeles, nbsites)"
| "alleles_loop a (site # sites) nballeles nbsites =
     (case read_column (store a) site (seqs a) of
        None \<Rightarrow> None
      | Some col \<Rightarrow>
          let alleles = remdups (filter is_allele col);
              onlygap = (filter is_allele col = [])
          in alleles_loop a sites (nballeles + length alleles)
               (if \<not> onlygap then nbsites + 1 else nbsites))"

text \<open>The alignments all of whose symbols are a gap, a match or an other symbol.\<close>

definition no_alleles :: "align \<Rightarrow> bool" where
  "no_alleles a \<longleftrightarrow>
     (\<forall>p \<in> set (seqs a). \<forall>s \<in> set (sequence (store a p)). s = GAP \<or> s = POINT \<or> s = OTHER)"

definition AvgAllelesPerSite :: "align \<Rightarrow> float64 outcome" where
  "AvgAllelesPerSite a =
     (case alleles_loop a [0 ..< nat (Length a)] 0 0 of
        None \<Rightarrow> Panic
      | Some (nballeles, nbsites) \<Rightarrow> Return (fdiv (int nballeles) (int nbsites)))"

text \<open>
  Entropy. The guard is \<^verbatim>\<open>site < 0 || site > a.Length()\<close>. \<open>occur\<close> is the tally of
  the eligible symbols of the column, and the sum runs over its keys.
\<close>

definition eligible :: "bool \<Rightarrow> rune \<Rightarrow> bool" where
  "eligible removegaps s \<longleftrightarrow> s \<noteq> OTHER \<and> s \<noteq> POINT \<and> (\<not> removegaps \<or> s \<noteq> GAP)"

definition entropy_sum :: "rune list \<Rightarrow> real" where
  "entropy_sum elig =
     (\<Sum>c \<leftarrow> remdups elig.
        - (real (count_list elig c) / real (length elig))
          * ln (real (count_list elig c) / real (length elig)))"

definition Entropy :: "align \<Rightarrow> int \<Rightarrow> bool \<Rightarrow> (float64 \<times> error option) outcome" where
  "Entropy a site removegaps =
     (if site < 0 \<or> site > Length a then Return (Finite 1, Some SiteOutsideAlignment)
      else case read_column (store a) (nat site) (seqs a) of
             None \<Rightarrow> Panic
           | Some col \<Rightarrow>
               let elig = filter (eligible removegaps) col;
                   total = length elig
               in if total = 0 then Return (NaN, None)
                  else Return (Finite (entropy_sum elig), None))"

section \<open>Stops\<close>

text \<open>The table \<^verbatim>\<open>standardcode\<close> of const.go.\<close>

definition standardcode :: "(string \<times> rune) list" where
  "standardcode =
    [(''---'', CHR ''-''),
     (''GCT'', CHR ''A''), (''GCC'', CHR ''A''), (''GCA'', CHR ''A''), (''GCG'', CHR ''A''),
     (''TTA'', CHR ''L''), (''TTG'', CHR ''L''), (''CTT'', CHR ''L''), (''CTC'', CHR ''L''),
     (''CTA'', CHR ''L''), (''CTG'', CHR ''L''),
     (''CGT'', CHR ''R''), (''CGC'', CHR ''R''), (''CGA'', CHR ''R''), (''CGG'', CHR ''R''),
     (''AGA'', CHR ''R''), (''AGG'', CHR ''R''),
     (''AAA'', CHR ''K''), (''AAG'', CHR ''K''),
     (''AAT'', CHR ''N''), (''AAC'', CHR ''N''),
     (''ATG'', CHR ''M''),
     (''GAT'', CHR ''D''), (''GAC'', CHR ''D''),
     (''TTT'', CHR ''F''), (''TTC'', CHR ''F''),
     (''TGT'', CHR ''C''), (''TGC'', CHR ''C''),
     (''CCT'', CHR ''P''), (''CCC'', CHR ''P''), (''CCA'', CHR ''P''), (''CCG'', CHR ''P''),
     (''CAA'', CHR ''Q''), (''CAG'', CHR ''Q''),
     (''TCT'', CHR ''S''), (''TCC'', CHR ''S''), (''TCA'', CHR ''S''), (''TCG'', CHR ''S''),
     (''AGT'', CHR ''S''), (''AGC'', CHR ''S''),
     (''GAA'', CHR ''E''), (''GAG'', CHR ''E''),
     (''ACT'', CHR ''T''), (''ACC'', CHR ''T''), (''ACA'', CHR ''T''), (''ACG'', CHR ''T''),
     (''GGT'', CHR ''G''), (''GGC'', CHR ''G''), (''GGA'', CHR ''G''), (''GGG'', CHR ''G''),
     (''TGG'', CHR ''W''),
     (''CAT'', CHR ''H''), (''CAC'', CHR ''H''),
     (''TAT'', CHR ''Y''), (''TAC'', CHR ''Y''),
     (''ATT'', CHR ''I''), (''ATC'', CHR ''I''), (''ATA'', CHR ''I''),
     (''GTT'', CHR ''V''), (''GTC'', CHR ''V''), (''GTA'', CHR ''V''), (''GTG'', CHR ''V''),
     (''TAA'', CHR ''*''), (''TGA'', CHR ''*''), (''TAG'', CHR ''*'')]"

text \<open>
  \<^verbatim>\<open>strings.Replace(strings.ToUpper(string(codon)), "U", "T", -1)\<close>. The upper case of a
  symbol outside ASCII is outside ASCII, and the keys of a code table are ASCII: only
  the ASCII letters need their upper case here, the lookup of any other codon fails
  either way.
\<close>

definition to_upper :: "rune \<Rightarrow> rune" where
  "to_upper c =
     (if CHR ''a'' \<le> c \<and> c \<le> CHR ''z'' then char_of (of_char c - (32::nat)) else c)"

definition codon_string :: "rune list \<Rightarrow> string" where
  "codon_string codon = map (\<lambda>c. if c = CHR ''U'' then CHR ''T'' else c) (map to_upper codon)"

text \<open>\<^verbatim>\<open>phase--; if phase < 0 { phase = 2 }\<close>\<close>

definition phase_down :: "int \<Rightarrow> int" where
  "phase_down phase = (if phase - 1 < 0 then 2 else phase - 1)"

text \<open>
  The variables that Stops declares before its loop over the rows, and that keep their
  value from one row to the next: \<^verbatim>\<open>phase\<close>, \<^verbatim>\<open>started\<close> and the buffer \<^verbatim>\<open>codon\<close>.
\<close>

record stops_vars =
  phase :: int
  started :: bool
  codon :: "rune list"

text \<open>
  The loop \<^verbatim>\<open>for i := 0; i < a.Length()-2; i++\<close> over one row, from the columns still
  to visit: the value left in \<^verbatim>\<open>stops[s]\<close> and the variables after the loop, or \<open>None\<close>
  when an index expression panics. \<^verbatim>\<open>break\<close> is the branch without a recursive call.
\<close>

fun stops_row :: "bool \<Rightarrow> (string \<rightharpoonup> rune) \<Rightarrow> rune list \<Rightarrow> rune list \<Rightarrow> nat list
                   \<Rightarrow> stops_vars \<Rightarrow> nat \<Rightarrow> nat \<Rightarrow> (int \<times> stops_vars) option" where
  "stops_row sgai code rf sq [] v pos codonpos = Some (-1, v)"
| "stops_row sgai code rf sq (i # is) v pos codonpos =
     (if \<not> i < length rf then None
      else
        let phase1 = (if rf ! i = CHR ''-'' then (phase v + 1) mod 3 else phase v) in
        if \<not> i < length sq then None
        else
          let (phase2, started2) =
                (if sq ! i = CHR ''-'' then (phase_down phase1, started v)
                 else if \<not> started v \<and> sgai \<and> phase1 \<noteq> 0 then (phase_down phase1, started v)
                 else (phase1, True));
              (codon2, codonpos2, pos2) =
                (if sq ! i \<noteq> CHR ''-'' \<and> (\<not> sgai \<or> started2)
                 then ((codon v)[codonpos := sq ! i], codonpos + 1, pos + 1)
                 else (codon v, codonpos, pos));
              v2 = \<lparr>phase = phase2, started = started2, codon = codon2\<rparr>
          in if codonpos2 = 3
             then
               let aa = (case code (codon_string codon2) of Some x \<Rightarrow> x | None \<Rightarrow> CHR ''X'')
               in if aa = CHR ''*'' then Some (int pos2, v2)
                  else stops_row sgai code rf sq is v2 pos2 0
             else stops_row sgai code rf sq is v2 pos2 codonpos2)"

text \<open>The loop \<^verbatim>\<open>for s := 1; s < a.NbSequences(); s++\<close>, from the rows still to visit.\<close>

fun stops_rows :: "bool \<Rightarrow> (string \<rightharpoonup> rune) \<Rightarrow> align \<Rightarrow> rune list \<Rightarrow> ref list
                    \<Rightarrow> stops_vars \<Rightarrow> int list option" where
  "stops_rows sgai code a rf [] v = Some []"
| "stops_rows sgai code a rf (p # ps) v =
     (case stops_row sgai code rf (sequence (store a p)) [0 ..< nat (Length a - 2)] v 0 0 of
        None \<Rightarrow> None
      | Some (stop, v') \<Rightarrow>
          (case stops_rows sgai code a rf ps v' of
             None \<Rightarrow> None
           | Some stops \<Rightarrow> Some (stop # stops)))"

text \<open>
  The function \<^verbatim>\<open>geneticCode\<close> is not among the files at hand: it is the parameter
  \<open>geneticCode\<close>, which gives a code table or an error. \<^verbatim>\<open>stops[0]\<close> keeps the zero
  of \<^verbatim>\<open>make\<close>; \<^verbatim>\<open>a.seqs[0]\<close> panics on an alignment without rows.
\<close>

definition Stops :: "(int \<Rightarrow> error + (string \<rightharpoonup> rune)) \<Rightarrow> bool \<Rightarrow> int \<Rightarrow> align
                  \<Rightarrow> (int list \<times> error option) outcome" where
  "Stops geneticCode startingGapsAsIncomplete geneticcode a =
     (case geneticCode geneticcode of
        Inl err \<Rightarrow> Return ([], Some err)
      | Inr code \<Rightarrow>
          (case seqs a of
             [] \<Rightarrow> Panic
           | r # ps \<Rightarrow>
               (case stops_rows startingGapsAsIncomplete code a (sequence (store a r)) ps
                       \<lparr>phase = 0, started = False, codon = replicate 3 (CHR 0x00)\<rparr> of
                  None \<Rightarrow> Panic
                | Some stops \<Rightarrow> Return (0 # stops, None))))"

section \<open>RemoveGapSeqs\<close>

text \<open>
  The cutoff is a \<^verbatim>\<open>float64\<close>. The test of a row or of a column,
  \<^verbatim>\<open>(cutoff > 0.0 && float64(nbgaps) >= cutoff*float64(n)) || (cutoff == 0 && nbgaps > 0)\<close>
  after \<^verbatim>\<open>if cutoff < 0 || cutoff > 1 { cutoff = 0 }\<close>, is a parameter \<open>test\<close> of the
  operations, applied to \<open>nbgaps\<close> and \<open>n\<close>. \<open>cutoff_test\<close> is that test on real
  numbers: it is the test of the code wherever the product is exact, and at the cutoff 0.
\<close>

definition cutoff_test :: "real \<Rightarrow> nat \<Rightarrow> int \<Rightarrow> bool" where
  "cutoff_test cutoff0 nbgaps n =
     (let cutoff = (if cutoff0 < 0 \<or> cutoff0 > 1 then 0 else cutoff0)
      in (cutoff > 0 \<and> real nbgaps \<ge> cutoff * real_of_int n) \<or> (cutoff = 0 \<and> nbgaps > 0))"

text \<open>
  The inner loop \<^verbatim>\<open>for site := 0; site < a.Length(); site++\<close> that counts the gaps of
  a row; it panics on a row of fewer than \<^verbatim>\<open>a.Length()\<close> symbols.
\<close>

definition row_gaps :: "int \<Rightarrow> rune list \<Rightarrow> nat option" where
  "row_gaps len s =
     (if int (length s) < len then None
      else Some (length (filter (\<lambda>c. c = GAP) (take (nat len) s))))"

text \<open>The first loop: the indices of the rows to remove, in increasing order.\<close>

fun gap_seqs :: "(nat \<Rightarrow> int \<Rightarrow> bool) \<Rightarrow> align \<Rightarrow> nat \<Rightarrow> ref list \<Rightarrow> nat list option" where
  "gap_seqs test a k [] = Some []"
| "gap_seqs test a k (p # ps) =
     (case row_gaps (Length a) (sequence (store a p)) of
        None \<Rightarrow> None
      | Some nbgaps \<Rightarrow>
          (case gap_seqs test a (k + 1) ps of
             None \<Rightarrow> None
           | Some toremove \<Rightarrow>
               Some (if test nbgaps (Length a) then k # toremove else toremove)))"

text \<open>\<^verbatim>\<open>append(xs[:k], xs[k+1:]...)\<close>; the slice \<^verbatim>\<open>xs[k+1:]\<close> panics when \<open>k \<ge> len(xs)\<close>.\<close>

definition remove_at :: "nat \<Rightarrow> 'a list \<Rightarrow> 'a list option" where
  "remove_at k xs = (if k < length xs then Some (take k xs @ drop (k + 1) xs) else None)"

text \<open>
  The second loop, \<^verbatim>\<open>for i := (len(toremove) - 1); i >= 0; i--\<close>, given the indices
  in the order it visits them. It assigns \<^verbatim>\<open>a.seqs\<close> and nothing else.
\<close>

fun remove_seqs :: "nat list \<Rightarrow> ref list \<Rightarrow> ref list option" where
  "remove_seqs [] ps = Some ps"
| "remove_seqs (k # ks) ps =
     (case remove_at k ps of None \<Rightarrow> None | Some ps' \<Rightarrow> remove_seqs ks ps')"

definition RemoveGapSeqs :: "(nat \<Rightarrow> int \<Rightarrow> bool) \<Rightarrow> align \<Rightarrow> align outcome" where
  "RemoveGapSeqs test a =
     (case gap_seqs test a 0 (seqs a) of
        None \<Rightarrow> Panic
      | Some toremove \<Rightarrow>
          (case remove_seqs (rev (sort toremove)) (seqs a) of
             None \<Rightarrow> Panic
           | Some ps \<Rightarrow> Return (a\<lparr>seqs := ps\<rparr>)))"

text \<open>
  The requirement of section 3 on the two containers of a bag: the mapping and the list
  reference the same set of sequences.
\<close>

definition same_seqs :: "align \<Rightarrow> bool" where
  "same_seqs a \<longleftrightarrow> ran (seqmap a) = set (seqs a)"

section \<open>Compress\<close>

text \<open>
  The radix tree of \<^verbatim>\<open>github.com/armon/go-radix\<close> is a map from strings to values whose
  \<^verbatim>\<open>Walk\<close> visits the keys in increasing order: it is the list of its entries in
  increasing order of the keys. \<^verbatim>\<open>Get\<close> is \<open>map_of\<close>; \<open>radix_insert\<close> is \<^verbatim>\<open>Insert\<close>,
  which adds an entry or replaces the value of a key the tree has. The keys are the
  strings \<^verbatim>\<open>string(pattern)\<close>; they are compared byte by byte, and the order of the
  UTF-8 encodings is the order of the symbol lists.
\<close>

fun radix_insert :: "string \<Rightarrow> 'v \<Rightarrow> (string \<times> 'v) list \<Rightarrow> (string \<times> 'v) list" where
  "radix_insert k v [] = [(k, v)]"
| "radix_insert k v ((k', v') # r) =
     (if k = k' then (k, v) # r
      else if k < k' then (k, v) # (k', v') # r
      else (k', v') # radix_insert k v r)"

text \<open>
  The first loop, from the sites still to visit: the tree and the counter \<^verbatim>\<open>npat\<close> of
  the patterns that \<^verbatim>\<open>Get\<close> did not find.
\<close>

fun compress_count :: "align \<Rightarrow> nat list \<Rightarrow> (string \<times> int) list \<Rightarrow> nat
                        \<Rightarrow> ((string \<times> int) list \<times> nat) option" where
  "compress_count a [] r npat = Some (r, npat)"
| "compress_count a (site # sites) r npat =
     (case read_column (store a) site (seqs a) of
        None \<Rightarrow> None
      | Some pattern \<Rightarrow>
          (case map_of r pattern of
             None \<Rightarrow> compress_count a sites (radix_insert pattern 1 r) (npat + 1)
           | Some count \<Rightarrow> compress_count a sites (radix_insert pattern (count + 1) r) npat))"

text \<open>
  \<^verbatim>\<open>for seq, c := range pattern\<close> over a string gives, with each symbol, the offset of
  its first byte: a symbol outside ASCII takes two bytes (the symbols here are below
  256).
\<close>

definition ascii :: "rune \<Rightarrow> bool" where
  "ascii c \<longleftrightarrow> (of_char c :: nat) < 128"

fun range_string :: "nat \<Rightarrow> rune list \<Rightarrow> (nat \<times> rune) list" where
  "range_string off [] = []"
| "range_string off (c # cs) = (off, c) # range_string (off + (if ascii c then 1 else 2)) cs"

text \<open>The assignments \<^verbatim>\<open>a.seqs[seq].sequence[npat] = c\<close> of one pattern.\<close>

fun write_pattern :: "ref list \<Rightarrow> nat \<Rightarrow> (nat \<times> rune) list \<Rightarrow> (ref \<Rightarrow> seq) \<Rightarrow> (ref \<Rightarrow> seq) option" where
  "write_pattern ps npat [] st = Some st"
| "write_pattern ps npat ((seq, c) # rest) st =
     (if \<not> seq < length ps then None
      else if \<not> npat < length (sequence (st (ps ! seq))) then None
      else write_pattern ps npat rest
             (st(ps ! seq := (st (ps ! seq))\<lparr>sequence := (sequence (st (ps ! seq)))[npat := c]\<rparr>)))"

text \<open>The callback of \<^verbatim>\<open>r.Walk\<close> on the entries of the tree in their order.\<close>

fun compress_walk :: "ref list \<Rightarrow> (string \<times> int) list \<Rightarrow> nat \<Rightarrow> int list \<Rightarrow> (ref \<Rightarrow> seq)
                       \<Rightarrow> (nat \<times> int list \<times> (ref \<Rightarrow> seq)) option" where
  "compress_walk ps [] npat weights st = Some (npat, weights, st)"
| "compress_walk ps ((pattern, count) # r) npat weights st =
     (if \<not> npat < length weights then None
      else case write_pattern ps npat (range_string 0 pattern) st of
             None \<Rightarrow> None
           | Some st' \<Rightarrow> compress_walk ps r (npat + 1) (weights[npat := count]) st')"

text \<open>
  \<^verbatim>\<open>a.seqs[seq].sequence[:npat]\<close>. The bound of this slice expression is the capacity of
  the row; the loops before it have read \<^verbatim>\<open>a.Length()\<close> symbols of every row and found
  at most as many patterns, so that \<open>npat\<close> is within the length where it is reached.
\<close>

definition truncate_row :: "nat \<Rightarrow> rune list \<Rightarrow> rune list option" where
  "truncate_row npat s = (if npat \<le> length s then Some (take npat s) else None)"

definition Compress :: "align \<Rightarrow> (int list \<times> align) outcome" where
  "Compress a =
     (case compress_count a [0 ..< nat (Length a)] [] 0 of
        None \<Rightarrow> Panic
      | Some (r, npat0) \<Rightarrow>
          (case compress_walk (seqs a) r 0 (replicate npat0 0) (store a) of
             None \<Rightarrow> Panic
           | Some (npat, weights, st) \<Rightarrow>
               (case each_row (truncate_row npat) (seqs a) st of
                  None \<Rightarrow> Panic
                | Some st' \<Rightarrow> Return (weights, a\<lparr>store := st', alength := int npat\<rparr>))))"

text \<open>The columns of an alignment whose rows have \<open>alength\<close> symbols, in their order.\<close>

definition columns :: "align \<Rightarrow> rune list list" where
  "columns a = map (\<lambda>site. map (\<lambda>p. sequence (store a p) ! site) (seqs a)) [0 ..< nat (Length a)]"

definition ascii_align :: "align \<Rightarrow> bool" where
  "ascii_align a \<longleftrightarrow> (\<forall>p \<in> set (seqs a). \<forall>c \<in> set (sequence (store a p)). ascii c)"

section \<open>AddSequenceChar\<close>

text \<open>
  \<^verbatim>\<open>fmt.Sprintf("%s_%04d", name, idx)\<close> for an index that is not negative: the decimal
  digits of the index, with zeros before them up to the width 4.
\<close>

fun dec :: "nat \<Rightarrow> string" where
  "dec n = (if n < 10 then [char_of (48 + n)] else dec (n div 10) @ [char_of (48 + n mod 10)])"

declare dec.simps [simp del]

definition pad4 :: "string \<Rightarrow> string" where
  "pad4 s = replicate (4 - length s) (CHR ''0'') @ s"

definition renamed :: "string \<Rightarrow> nat \<Rightarrow> string" where
  "renamed nm idx = nm @ ''_'' @ pad4 (dec idx)"

text \<open>
  The loop \<^verbatim>\<open>for ok { idx++; tmpname = ...; _, ok = a.seqmap[tmpname] }\<close>, entered with
  \<open>ok\<close> true: it ends at the first index whose name the mapping does not have. The
  warning that \<^verbatim>\<open>log.Print\<close> writes is not part of the state.
\<close>

partial_function (option) rename_loop :: "(string \<rightharpoonup> ref) \<Rightarrow> string \<Rightarrow> nat \<Rightarrow> string option" where
  "rename_loop m nm idx =
     (if m (renamed nm (idx + 1)) = None then Some (renamed nm (idx + 1))
      else rename_loop m nm (idx + 1))"

declare rename_loop.simps [code]

definition new_name :: "(string \<rightharpoonup> ref) \<Rightarrow> string \<Rightarrow> string option" where
  "new_name m nm = (if m nm = None then Some nm else rename_loop m nm 0)"

text \<open>
  Modelled from the spec: \<^verbatim>\<open>NewSequence\<close> is not among the files at hand; a Sequence is
  ``a named symbol array with an optional comment'', and the call allocates one.

  AddSequenceChar gives \<open>None\<close> when the renaming loop does not end.
\<close>

definition NewSequence :: "string \<Rightarrow> rune list \<Rightarrow> string \<Rightarrow> seq" where
  "NewSequence nm sq cm = \<lparr>name = nm, sequence = sq, comment = cm\<rparr>"

definition AddSequenceChar :: "string \<Rightarrow> rune list \<Rightarrow> string \<Rightarrow> align \<Rightarrow> (error option \<times> align) option" where
  "AddSequenceChar nm sq cm a =
     (case new_name (seqmap a) nm of
        None \<Rightarrow> None
      | Some tmpname \<Rightarrow>
          if alength a \<noteq> -1 \<and> alength a \<noteq> int (length sq)
          then Some (Some (SeqLengthMismatch tmpname), a)
          else Some (None,
                 a\<lparr>alength := int (length sq),
                   store := (store a)(nextref a := NewSequence tmpname sq cm),
                   nextref := nextref a + 1,
                   seqmap := (seqmap a)(tmpname \<mapsto> nextref a),
                   seqs := seqs a @ [nextref a]\<rparr>))"

definition AddSequence :: "string \<Rightarrow> string \<Rightarrow> string \<Rightarrow> align \<Rightarrow> (error option \<times> align) option" where
  "AddSequence nm sq cm a = AddSequenceChar nm sq cm a"

section \<open>RemoveGapSites\<close>

text \<open>
  The first loop, from the sites still to visit and the value of \<^verbatim>\<open>firstcontinuous\<close>:
  the sites to remove, in the order of the visit, and \<^verbatim>\<open>firstcontinuous\<close> after the
  loop. The test of a column is the parameter \<open>test\<close>, as in RemoveGapSeqs.
\<close>

fun gap_sites :: "(nat \<Rightarrow> int \<Rightarrow> bool) \<Rightarrow> align \<Rightarrow> nat list \<Rightarrow> int \<Rightarrow> (nat list \<times> int) option" where
  "gap_sites test a [] firstcontinuous = Some ([], firstcontinuous)"
| "gap_sites test a (site # sites) firstcontinuous =
     (case read_column (store a) site (seqs a) of
        None \<Rightarrow> None
      | Some col \<Rightarrow>
          if test (length (filter (\<lambda>c. c = GAP) col)) (int (NbSequences a))
          then (case gap_sites test a sites
                       (if int site = firstcontinuous + 1 then firstcontinuous + 1
                        else firstcontinuous) of
                  None \<Rightarrow> None
                | Some (toremove, f) \<Rightarrow> Some (site # toremove, f))
          else gap_sites test a sites firstcontinuous)"

text \<open>
  The second loop, from the sites still to visit (it visits \<^verbatim>\<open>toremove\<close> from its end),
  \<^verbatim>\<open>lastcontinuous\<close> and \<^verbatim>\<open>nbremoved\<close>.
\<close>

fun remove_sites :: "bool \<Rightarrow> int \<Rightarrow> ref list \<Rightarrow> nat list \<Rightarrow> int \<Rightarrow> nat \<Rightarrow> (ref \<Rightarrow> seq)
                      \<Rightarrow> (nat \<times> (ref \<Rightarrow> seq)) option" where
  "remove_sites ends firstcontinuous ps [] lastcontinuous nbremoved st = Some (nbremoved, st)"
| "remove_sites ends firstcontinuous ps (k # ks) lastcontinuous nbremoved st =
     (let lastcontinuous' = (if int k = lastcontinuous - 1 then lastcontinuous - 1
                             else lastcontinuous)
      in if \<not> ends \<or> lastcontinuous' = int k \<or> int k \<le> firstcontinuous
         then (case each_row (remove_at k) ps st of
                 None \<Rightarrow> None
               | Some st' \<Rightarrow>
                   remove_sites ends firstcontinuous ps ks lastcontinuous' (nbremoved + 1) st')
         else remove_sites ends firstcontinuous ps ks lastcontinuous' nbremoved st)"

definition RemoveGapSites :: "(nat \<Rightarrow> int \<Rightarrow> bool) \<Rightarrow> bool \<Rightarrow> align \<Rightarrow> align outcome" where
  "RemoveGapSites test ends a =
     (case gap_sites test a [0 ..< nat (Length a)] (-1) of
        None \<Rightarrow> Panic
      | Some (toremove, firstcontinuous) \<Rightarrow>
          (case remove_sites ends firstcontinuous (seqs a) (rev (sort toremove))
                  (Length a) 0 (store a) of
             None \<Rightarrow> Panic
           | Some (nbremoved, st) \<Rightarrow>
               Return (a\<lparr>store := st, alength := alength a - int nbremoved\<rparr>)))"

section \<open>Concat\<close>

text \<open>
  Modelled from the spec: the methods \<^verbatim>\<open>GetSequenceChar\<close>, \<^verbatim>\<open>appendToSequence\<close>,
  \<^verbatim>\<open>IterateAll\<close> and \<^verbatim>\<open>IterateChar\<close> of the bag are not among the files at hand. By
  section 3 ``the mapping is for lookup, the list defines iteration order'': the two
  iterations visit \<open>seqs\<close> in its order, \<open>GetSequenceChar\<close> looks the name up in
  \<open>seqmap\<close>, and \<open>appendToSequence\<close> appends to the sequence that \<open>seqmap\<close> has under
  the name, or gives an error when it has none.
\<close>

definition GetSequenceChar :: "align \<Rightarrow> string \<Rightarrow> rune list \<times> bool" where
  "GetSequenceChar a nm =
     (case seqmap a nm of None \<Rightarrow> ([], False) | Some p \<Rightarrow> (sequence (store a p), True))"

definition appendToSequence :: "string \<Rightarrow> rune list \<Rightarrow> align \<Rightarrow> error option \<times> align" where
  "appendToSequence nm sq a =
     (case seqmap a nm of
        None \<Rightarrow> (Some (SeqNotInAlignment nm), a)
      | Some p \<Rightarrow>
          (None, a\<lparr>store := (store a)(p := (store a p)\<lparr>sequence := sequence (store a p) @ sq\<rparr>)\<rparr>))"

text \<open>\<^verbatim>\<open>strings.Repeat(string(GAP), n)\<close>, which panics on a negative count.\<close>

definition gap_run :: "int \<Rightarrow> rune list option" where
  "gap_run n = (if n < 0 then None else Some (replicate (nat n) GAP))"

text \<open>
  The first iteration, over the rows of \<open>a\<close>: a row whose name \<open>c\<close> does not have gets
  the gaps. \<open>None\<close> is a panic.
\<close>

fun concat_pad :: "align \<Rightarrow> ref list \<Rightarrow> align \<Rightarrow> align option" where
  "concat_pad c [] a = Some a"
| "concat_pad c (p # ps) a =
     (if \<not> snd (GetSequenceChar c (name (store a p)))
      then (case gap_run (Length c) of
              None \<Rightarrow> None
            | Some g \<Rightarrow> concat_pad c ps (snd (appendToSequence (name (store a p)) g a)))
      else concat_pad c ps a)"

text \<open>
  The second iteration, over the rows of \<open>c\<close>, with the variable \<open>err\<close> that each
  round assigns. The result of \<^verbatim>\<open>a.AddSequence\<close> is dropped, as in the code. \<open>None\<close>
  is a call of AddSequence that does not return.
\<close>

fun concat_rows :: "align \<Rightarrow> ref list \<Rightarrow> error option \<Rightarrow> align \<Rightarrow> (error option \<times> align) outcome option" where
  "concat_rows c [] err a = Some (Return (err, a))"
| "concat_rows c (q # qs) err a =
     (if \<not> snd (GetSequenceChar a (name (store c q)))
      then (case gap_run (Length a) of
              None \<Rightarrow> Some Panic
            | Some g \<Rightarrow>
                (case AddSequence (name (store c q)) g (comment (store c q)) a of
                   None \<Rightarrow> None
                 | Some (e, a1) \<Rightarrow>
                     (case appendToSequence (name (store c q)) (sequence (store c q)) a1 of
                        (err', a2) \<Rightarrow> concat_rows c qs err' a2)))
      else (case appendToSequence (name (store c q)) (sequence (store c q)) a of
              (err', a2) \<Rightarrow> concat_rows c qs err' a2))"

text \<open>The last iteration, which compares the lengths of the rows.\<close>

fun check_lengths :: "(ref \<Rightarrow> seq) \<Rightarrow> ref list \<Rightarrow> int \<Rightarrow> error option \<Rightarrow> int \<times> error option" where
  "check_lengths st [] leng err = (leng, err)"
| "check_lengths st (p # ps) leng err =
     (if leng = -1 then check_lengths st ps (int (length (sequence (st p)))) err
      else if leng \<noteq> int (length (sequence (st p)))
      then check_lengths st ps leng (Some ConcatLengthMismatch)
      else check_lengths st ps leng err)"

definition Concat :: "align \<Rightarrow> align \<Rightarrow> (error option \<times> align) outcome option" where
  "Concat a c =
     (if Alphabet a \<noteq> Alphabet c then Some (Return (Some AlphabetMismatch, a))
      else case concat_pad c (seqs a) a of
             None \<Rightarrow> Some Panic
           | Some a1 \<Rightarrow>
               (case concat_rows c (seqs c) None a1 of
                  None \<Rightarrow> None
                | Some Panic \<Rightarrow> Some Panic
                | Some (Exit e) \<Rightarrow> Some (Exit e)
                | Some (Return (err, a2)) \<Rightarrow>
                    if err \<noteq> None then Some (Return (err, a2))
                    else case check_lengths (store a2) (seqs a2) (-1) None of
                           (leng, err') \<Rightarrow> Some (Return (err', a2\<lparr>alength := leng\<rparr>))))"

section \<open>Well-formed alignments\<close>

text \<open>
  The invariants of the data model (section 3) on the state of an alignment: every row
  has \<open>alength\<close> symbols; the pointers of \<open>seqs\<close> are distinct and allocated; the
  mapping has every row under its name, and nothing else.
\<close>

definition linked :: "align \<Rightarrow> bool" where
  "linked a \<longleftrightarrow>
     distinct (seqs a)
     \<and> (\<forall>p \<in> set (seqs a). p < nextref a \<and> seqmap a (name (store a p)) = Some p)
     \<and> (\<forall>n p. seqmap a n = Some p \<longrightarrow> p \<in> set (seqs a) \<and> name (store a p) = n)"

definition well_formed :: "align \<Rightarrow> bool" where
  "well_formed a \<longleftrightarrow> rows_ok a \<and> linked a"

text \<open>The number that a string of decimal digits denotes.\<close>

definition digits_value :: "string \<Rightarrow> nat" where
  "digits_value s = foldl (\<lambda>a c. 10 * a + (of_char c - 48)) 0 s"


section \<open>The K2P distance\<close>

text \<open>
  \<^verbatim>\<open>math.Log\<close>: NaN for a negative argument and for NaN, minus infinity for zero, plus
  infinity for plus infinity. \<open>lg\<close> is the \<^verbatim>\<open>float64\<close> that it gives for a finite
  positive argument.
\<close>

fun flog :: "(real \<Rightarrow> float64) \<Rightarrow> float64 \<Rightarrow> float64" where
  "flog lg (Finite x) = (if x < 0 then NaN else if x = 0 then NegInf else lg x)"
| "flog lg PosInf = PosInf"
| "flog lg x = NaN"

record K2PModel =
  numSites :: float64
  selectedSites :: "bool list"
  removegaps :: bool

definition NewK2PModel :: "bool \<Rightarrow> K2PModel" where
  "NewK2PModel rg = \<lparr>numSites = Finite 0, selectedSites = [], removegaps = rg\<rparr>"

text \<open>
  The expression \<^verbatim>\<open>-0.5*math.Log(1-2*trS-trV) - 0.25*math.Log(1-2*trV)\<close> of Distance.
\<close>

definition k2p_dist :: "(real \<Rightarrow> float64) \<Rightarrow> (real \<Rightarrow> float64) \<Rightarrow> float64 \<Rightarrow> float64 \<Rightarrow> float64" where
  "k2p_dist rnd lg trS trV =
     fsub rnd
       (fmul rnd (Finite (- 0.5))
          (flog lg (fsub rnd (fsub rnd (Finite 1) (fmul rnd (Finite 2) trS)) trV)))
       (fmul rnd (Finite 0.25)
          (flog lg (fsub rnd (Finite 1) (fmul rnd (Finite 2) trV))))"

text \<open>
  Distance. The function \<^verbatim>\<open>countMutations\<close> is not among the files at hand: it is the
  parameter \<open>cm\<close>, which gives the five numbers that Distance takes from it.
\<close>

definition Distance ::
  "(real \<Rightarrow> float64) \<Rightarrow> (real \<Rightarrow> float64)
     \<Rightarrow> (rune list \<Rightarrow> rune list \<Rightarrow> bool list \<Rightarrow> float64 list
          \<Rightarrow> float64 \<times> float64 \<times> float64 \<times> float64 \<times> float64)
     \<Rightarrow> K2PModel \<Rightarrow> rune list \<Rightarrow> rune list \<Rightarrow> float64 list \<Rightarrow> float64" where
  "Distance rnd lg cm m seq1 seq2 weights =
     (case cm seq1 seq2 (selectedSites m) weights of
        (trS0, trV0, _, _, tot) \<Rightarrow>
          let trS = fquot rnd trS0 tot;
              trV = fquot rnd trV0 tot;
              dist = k2p_dist rnd lg trS trV
          in if fgt dist (Finite 0) then dist else Finite 0)"

text \<open>The values that are not negative: NaN is not among them.\<close>

fun nonneg :: "float64 \<Rightarrow> bool" where
  "nonneg (Finite x) = (0 \<le> x)"
| "nonneg PosInf = True"
| "nonneg x = False"

text \<open>
  The distance of the specification, on real numbers:
  \<open>-0.5 ln(1 - 2P - Q) - 0.25 ln(1 - 2Q)\<close>.
\<close>

definition k2p_formula :: "real \<Rightarrow> real \<Rightarrow> real" where
  "k2p_formula P Q = - 0.5 * ln (1 - 2 * P - Q) - 0.25 * ln (1 - 2 * Q)"


section \<open>Example alignments\<close>

definition mk_align :: "int \<Rightarrow> (string \<times> string) list \<Rightarrow> align" where
  "mk_align alpha rows =
     \<lparr>store = (\<lambda>p. if p < length rows
                       then \<lparr>name = fst (rows ! p), sequence = snd (rows ! p), comment = []\<rparr>
                       else no_seq),
      nextref = length rows,
      seqmap = map_of (zip (map fst rows) [0 ..< length rows]),
      seqs = [0 ..< length rows],
      alphabet = alpha,
      alength = (case rows of [] \<Rightarrow> -1 | r # _ \<Rightarrow> int (length (snd r)))\<rparr>"


section \<open>Properties of TrimSequences\<close>

lemma each_row_Some:
  assumes "distinct ps" and "\<forall>p \<in> set ps. f (sequence (st p)) = Some (g (sequence (st p)))"
  shows "each_row f ps st =
           Some (\<lambda>p. if p \<in> set ps then (st p)\<lparr>sequence := g (sequence (st p))\<rparr> else st p)"
  using assms
proof (induction ps arbitrary: st)
  case Nil
  then show ?case by simp
next
  case (Cons q qs)
  let ?st = "st(q := (st q)\<lparr>sequence := g (sequence (st q))\<rparr>)"
  from Cons.prems have q: "q \<notin> set qs" and d: "distinct qs" by auto
  from Cons.prems q have "\<forall>p \<in> set qs. f (sequence (?st p)) = Some (g (sequence (?st p)))"
    by auto
  from Cons.IH [OF d this]
  have "each_row f qs ?st =
          Some (\<lambda>p. if p \<in> set qs then (?st p)\<lparr>sequence := g (sequence (?st p))\<rparr> else ?st p)" .
  also have "(\<lambda>p. if p \<in> set qs then (?st p)\<lparr>sequence := g (sequence (?st p))\<rparr> else ?st p)
           = (\<lambda>p. if p \<in> set (q # qs) then (st p)\<lparr>sequence := g (sequence (st p))\<rparr> else st p)"
    using q by (auto simp: fun_eq_iff)
  finally have r: "each_row f qs ?st =
      Some (\<lambda>p. if p \<in> set (q # qs) then (st p)\<lparr>sequence := g (sequence (st p))\<rparr> else st p)" .
  have step: "each_row f (q # qs) st = each_row f qs ?st"
    using Cons.prems by simp
  show ?case unfolding step by (rule r)
qed

lemma each_row_None:
  assumes "p \<in> set ps" and "distinct ps" and "f (sequence (st p)) = None"
  shows "each_row f ps st = None"
  using assms
proof (induction ps arbitrary: st)
  case Nil
  then show ?case by simp
next
  case (Cons q qs)
  show ?case
  proof (cases "p = q")
    case True
    with Cons.prems show ?thesis by simp
  next
    case False
    with Cons.prems have "p \<in> set qs" "distinct qs" "q \<noteq> p" by auto
    with Cons.IH Cons.prems(3) show ?thesis
      by (auto split: option.splits)
  qed
qed

text \<open>
  C8. On an alignment whose rows all have \<open>alength\<close> symbols, TrimSequences returns an
  error, with the alignment as it was, exactly when \<open>trimsize < 0\<close> or
  \<open>trimsize \<ge> length\<close>; otherwise it returns no error, every row has lost its first
  (fromStart) or last \<open>trimsize\<close> symbols, and the length has decreased by
  \<open>trimsize\<close>.
\<close>

theorem TrimSequences_spec:
  assumes "rows_ok a" and "distinct (seqs a)"
  shows "((\<exists>e a'. TrimSequences trimsize fromStart a = Return (Some e, a'))
            \<longleftrightarrow> (trimsize < 0 \<or> trimsize \<ge> Length a))
       \<and> (\<forall>e a'. TrimSequences trimsize fromStart a = Return (Some e, a') \<longrightarrow> a' = a)
       \<and> (0 \<le> trimsize \<and> trimsize < Length a \<longrightarrow>
            (\<exists>a'. TrimSequences trimsize fromStart a = Return (None, a')
                 \<and> Length a' = Length a - trimsize
                 \<and> seqs a' = seqs a \<and> seqmap a' = seqmap a
                 \<and> (\<forall>p \<in> set (seqs a).
                        name (store a' p) = name (store a p)
                      \<and> comment (store a' p) = comment (store a p)
                      \<and> sequence (store a' p) =
                          (if fromStart then drop (nat trimsize) (sequence (store a p))
                           else take (length (sequence (store a p)) - nat trimsize)
                                  (sequence (store a p))))))"
proof -
  let ?g = "\<lambda>s. if fromStart then drop (nat trimsize) s else take (length s - nat trimsize) s"
  have ok: "each_row (trim_row (nat trimsize) fromStart) (seqs a) (store a) =
          Some (\<lambda>p. if p \<in> set (seqs a) then (store a p)\<lparr>sequence := ?g (sequence (store a p))\<rparr>
                     else store a p)"
    if "0 \<le> trimsize" "trimsize < Length a"
  proof (rule each_row_Some [OF assms(2)])
    show "\<forall>p \<in> set (seqs a). trim_row (nat trimsize) fromStart (sequence (store a p))
            = Some (?g (sequence (store a p)))"
      using that assms(1) by (auto simp: rows_ok_def Length_def trim_row_def)
  qed
  show ?thesis
    using ok by (auto simp: TrimSequences_def Length_def split: option.splits)
qed

theorem TrimSequences_spec_witness:
  "rows_ok (mk_align 1 [(''s1'', ''ACGT''), (''s2'', ''A-GT'')])
   \<and> distinct (seqs (mk_align 1 [(''s1'', ''ACGT''), (''s2'', ''A-GT'')]))
   \<and> (\<exists>a'. TrimSequences 1 True (mk_align 1 [(''s1'', ''ACGT''), (''s2'', ''A-GT'')]) = Return (None, a')
          \<and> Length a' = 3
          \<and> sequence (store a' 0) = ''CGT'' \<and> sequence (store a' 1) = ''-GT'')
   \<and> (\<exists>e. TrimSequences 4 True (mk_align 1 [(''s1'', ''ACGT''), (''s2'', ''A-GT'')])
            = Return (Some e, mk_align 1 [(''s1'', ''ACGT''), (''s2'', ''A-GT'')]))"
proof -
  let ?a = "mk_align 1 [(''s1'', ''ACGT''), (''s2'', ''A-GT'')]"
  have r: "rows_ok ?a" by (simp add: rows_ok_def mk_align_def)
  have d: "distinct (seqs ?a)" by (simp add: mk_align_def)
  have l: "Length ?a = 4" by (simp add: Length_def mk_align_def)
  have s: "seqs ?a = [0, 1]" by (simp add: mk_align_def upt_rec)
  have s0: "sequence (store ?a 0) = ''ACGT''" and s1: "sequence (store ?a 1) = ''A-GT''"
    by (simp_all add: mk_align_def)
  from TrimSequences_spec [OF r d, of 1 True] l s s0 s1
  have "\<exists>a'. TrimSequences 1 True ?a = Return (None, a') \<and> Length a' = 3
          \<and> sequence (store a' 0) = ''CGT'' \<and> sequence (store a' 1) = ''-GT''"
    by auto
  moreover from TrimSequences_spec [OF r d, of 4 True] l
  have "\<exists>e. TrimSequences 4 True ?a = Return (Some e, ?a)" by auto
  ultimately show ?thesis using r d by blast
qed

section \<open>Properties of Mask\<close>

lemma int64_small: "- (2 ^ 63) \<le> x \<Longrightarrow> x < 2 ^ 63 \<Longrightarrow> int64 x = x"
  by (simp add: int64_def)

lemma mask_row_length: "mask_row rep idx s = Some s' \<Longrightarrow> length s' = length s"
  by (induction idx arbitrary: s) (auto split: if_splits)

text \<open>
  C7. The claim fails on the code where the alphabet is neither nucleotide nor
  amino-acid: Mask returns the error after it has overwritten the masked range with
  \<open>.\<close>, since the branch that records the error does not return. Here, on an alignment
  of alphabet UNKNOWN with the row ACGT, \<open>Mask(1, 2)\<close> returns the error and leaves the
  row A..T.
\<close>

theorem Mask_wrong_alphabet_mutates:
  "\<exists>a'. Mask (CHR ''X'') (CHR ''N'') 1 2 (mk_align UNKNOWN [(''s1'', ''ACGT'')])
           = Return (Some MaskWrongAlphabet, a')
       \<and> sequence (store a' 0) = ''A..T''
       \<and> sequence (store (mk_align UNKNOWN [(''s1'', ''ACGT'')]) 0) = ''ACGT''
       \<and> a' \<noteq> mk_align UNKNOWN [(''s1'', ''ACGT'')]"
proof -
  let ?a = "mk_align UNKNOWN [(''s1'', ''ACGT'')]"
  have i: "mask_indices 1 2 4 = [1, 2]"
    by (simp add: mask_indices_def int64_def upto.simps)
  have m: "Mask (CHR ''X'') (CHR ''N'') 1 2 ?a
        = Return (Some MaskWrongAlphabet,
                  ?a\<lparr>store := (store ?a)(0 := (store ?a 0)\<lparr>sequence := ''A..T''\<rparr>)\<rparr>)"
    by (simp add: Mask_def Length_def Alphabet_def mk_align_def i
                  UNKNOWN_def AMINOACIDS_def NUCLEOTIDS_def)
  have s: "sequence (store ?a 0) = ''ACGT''"
    by (simp add: mk_align_def)
  have "sequence (store (?a\<lparr>store := (store ?a)(0 := (store ?a 0)\<lparr>sequence := ''A..T''\<rparr>)\<rparr>) 0)
          \<noteq> sequence (store ?a 0)"
    by (simp add: mk_align_def)
  then have "?a\<lparr>store := (store ?a)(0 := (store ?a 0)\<lparr>sequence := ''A..T''\<rparr>)\<rparr> \<noteq> ?a"
    by metis
  with m s show ?thesis by simp
qed

section \<open>Properties of the statistics\<close>

lemma read_column_Some:
  "\<forall>p \<in> set ps. site < length (sequence (st p)) \<Longrightarrow>
     read_column st site ps = Some (map (\<lambda>p. sequence (st p) ! site) ps)"
  by (induction ps) auto

lemma alleles_loop_onlygap:
  assumes "\<forall>p \<in> set (seqs a). \<forall>s \<in> set (sequence (store a p)). \<not> is_allele s"
    and "\<forall>site \<in> set sites. \<forall>p \<in> set (seqs a). site < length (sequence (store a p))"
  shows "alleles_loop a sites nballeles nbsites = Some (nballeles, nbsites)"
  using assms(2)
proof (induction sites)
  case Nil
  then show ?case by simp
next
  case (Cons site sites)
  then have col: "read_column (store a) site (seqs a)
                  = Some (map (\<lambda>p. sequence (store a p) ! site) (seqs a))"
    by (intro read_column_Some) simp
  have "filter is_allele (map (\<lambda>p. sequence (store a p) ! site) (seqs a)) = []"
    using assms(1) Cons.prems by (auto simp: filter_empty_conv)
  with col Cons show ?case by simp
qed

text \<open>
  C10. On an alignment whose rows all have \<open>alength\<close> symbols, each of them a gap, a
  match or an other symbol (the empty alignment included), AvgAllelesPerSite returns the
  not-a-number value of the division 0/0: it neither panics nor returns zero.
\<close>

theorem AvgAllelesPerSite_onlygap_NaN:
  assumes "rows_ok a" and "no_alleles a"
  shows "AvgAllelesPerSite a = Return NaN"
proof -
  have 1: "\<forall>p \<in> set (seqs a). \<forall>s \<in> set (sequence (store a p)). \<not> is_allele s"
    using assms(2) by (auto simp: is_allele_def no_alleles_def)
  have 2: "\<forall>site \<in> set [0 ..< nat (Length a)]. \<forall>p \<in> set (seqs a).
             site < length (sequence (store a p))"
    using assms(1) by (auto simp: rows_ok_def Length_def)
  show ?thesis
    by (simp add: AvgAllelesPerSite_def alleles_loop_onlygap [OF 1 2] fdiv_def)
qed

theorem AvgAllelesPerSite_onlygap_NaN_witness:
  "rows_ok (mk_align 1 [(''s1'', ''-.*''), (''s2'', ''---'')])
   \<and> no_alleles (mk_align 1 [(''s1'', ''-.*''), (''s2'', ''---'')])
   \<and> AvgAllelesPerSite (mk_align 1 [(''s1'', ''-.*''), (''s2'', ''---'')]) = Return NaN
   \<and> rows_ok (mk_align 1 [])
   \<and> no_alleles (mk_align 1 [])
   \<and> AvgAllelesPerSite (mk_align 1 []) = Return NaN"
proof -
  let ?a = "mk_align 1 [(''s1'', ''-.*''), (''s2'', ''---'')]"
  have s: "seqs ?a = [0, 1]" by (simp add: mk_align_def upt_rec)
  have r: "rows_ok ?a" by (simp add: rows_ok_def s) (simp add: mk_align_def)
  have g: "no_alleles ?a"
    by (simp add: no_alleles_def s) (simp add: mk_align_def GAP_def POINT_def OTHER_def)
  have r0: "rows_ok (mk_align 1 [])" by (simp add: rows_ok_def mk_align_def)
  have g0: "no_alleles (mk_align 1 [])"
    by (simp add: no_alleles_def mk_align_def)
  from AvgAllelesPerSite_onlygap_NaN [OF r g] AvgAllelesPerSite_onlygap_NaN [OF r0 g0] r g r0 g0
  show ?thesis by blast
qed

text \<open>
  C5. The guard of Entropy lets \<open>site = length\<close> through (it tests \<open>site > length\<close>, where
  CharStatsSite and SiteConservation test \<open>site \<ge> length\<close>): on the alignment with the
  one row AC, \<open>Entropy(2, false)\<close> does not return an error, it reads
  \<open>sequence[2]\<close> and panics; on an alignment of length 2 that has lost its rows it
  returns not-a-number and no error.
\<close>

theorem Entropy_site_eq_length:
  "Entropy (mk_align 1 [(''s1'', ''AC'')]) 2 False = Panic
   \<and> Length (mk_align 1 [(''s1'', ''AC'')]) = 2
   \<and> Entropy ((mk_align 1 [(''s1'', ''AC'')])\<lparr>seqs := []\<rparr>) 2 False = Return (NaN, None)"
  by (simp add: Entropy_def Length_def mk_align_def)

section \<open>Properties of Stops\<close>

text \<open>
  C6. The claim fails on the code: Stops declares \<open>phase\<close> and \<open>started\<close> before the loop
  over the rows (Frameshifts declares them inside), so that a row is read with the
  values the row before left. With the reference AAAAAAAAA and starting gaps taken
  as incomplete, the row -TAACCCCC has no stop in frame when it is the first row after
  the reference, and the stop 3 when the row AAAAAAAAA comes before it.
\<close>

theorem Stops_depends_on_earlier_rows:
  "Stops (\<lambda>_. Inr (map_of standardcode)) True 0
      (mk_align 1 [(''ref'', ''AAAAAAAAA''), (''s2'', ''-TAACCCCC'')])
     = Return ([0, -1], None)
   \<and> Stops (\<lambda>_. Inr (map_of standardcode)) True 0
      (mk_align 1 [(''ref'', ''AAAAAAAAA''), (''s1'', ''AAAAAAAAA''), (''s2'', ''-TAACCCCC'')])
     = Return ([0, -1, 3], None)"
  by code_simp

section \<open>Properties of RemoveGapSeqs\<close>

text \<open>
  C3. The claim fails on the code: RemoveGapSeqs removes a row from the list \<open>seqs\<close>
  and leaves it in the mapping \<open>seqmap\<close>, which AddSequenceChar keeps in step with the
  list. From the rows s1 = A- and s2 = AC, \<open>RemoveGapSeqs(0)\<close> removes s1 from the list,
  and the mapping still gives its sequence for the name s1.
\<close>

theorem RemoveGapSeqs_leaves_seqmap:
  "same_seqs (mk_align 1 [(''s1'', ''A-''), (''s2'', ''AC'')])
   \<and> (\<exists>a'. RemoveGapSeqs (cutoff_test 0) (mk_align 1 [(''s1'', ''A-''), (''s2'', ''AC'')]) = Return a'
          \<and> seqs a' = [1]
          \<and> seqmap a' ''s1'' = Some 0
          \<and> name (store a' 0) = ''s1''
          \<and> \<not> same_seqs a')"
proof -
  let ?a = "mk_align 1 [(''s1'', ''A-''), (''s2'', ''AC'')]"
  have m: "seqmap ?a = [''s1'' \<mapsto> 0, ''s2'' \<mapsto> 1]"
    by (simp add: mk_align_def upt_rec fun_eq_iff)
  have s: "seqs ?a = [0, 1]"
    by (simp add: mk_align_def upt_rec)
  have "ran (seqmap ?a) = {0, 1}"
    unfolding m by (simp add: ran_map_upd insert_commute)
  then have 1: "same_seqs ?a"
    by (simp add: same_seqs_def s insert_commute)
  have g: "gap_seqs (cutoff_test 0) ?a 0 [0, 1] = Some [0]"
    by (simp add: row_gaps_def Length_def cutoff_test_def GAP_def mk_align_def)
  have r: "RemoveGapSeqs (cutoff_test 0) ?a = Return (?a\<lparr>seqs := [1]\<rparr>)"
    unfolding RemoveGapSeqs_def s g by (simp add: remove_at_def)
  have "seqmap ?a ''s1'' = Some 0"
    by (simp add: m)
  then have "0 \<in> ran (seqmap ?a)"
    by (rule ranI)
  then have 2: "\<not> same_seqs (?a\<lparr>seqs := [1]\<rparr>)"
    by (simp add: same_seqs_def) blast
  have 3: "seqmap (?a\<lparr>seqs := [1]\<rparr>) ''s1'' = Some 0"
    by (simp add: m)
  have 4: "name (store (?a\<lparr>seqs := [1]\<rparr>) 0) = ''s1''"
    by (simp add: mk_align_def)
  from 1 2 3 4 r show ?thesis by simp
qed

section \<open>Properties of NewAlign and ShuffleSites\<close>

lemma flt_NaN [simp]: "flt NaN y = False" "flt x NaN = False"
  by (cases y; simp) (cases x; simp)




section \<open>Properties of Compress\<close>

lemma radix_insert_keys: "fst ` set (radix_insert k v r) = insert k (fst ` set r)"
  by (induction k v r rule: radix_insert.induct) auto

lemma radix_insert_sorted:
  "sorted_wrt (<) (map fst r) \<Longrightarrow> sorted_wrt (<) (map fst (radix_insert k v r))"
proof (induction k v r rule: radix_insert.induct)
  case (1 k v)
  then show ?case by simp
next
  case (2 k v k' v' r)
  have "fst ` set (radix_insert k v r) = insert k (fst ` set r)"
    by (rule radix_insert_keys)
  with 2 show ?case
    by (auto simp: image_iff dest: less_trans)
qed

lemma radix_insert_values:
  "\<forall>e \<in> set r. P (snd e) \<Longrightarrow> P v \<Longrightarrow> \<forall>e \<in> set (radix_insert k v r). P (snd e)"
  by (induction k v r rule: radix_insert.induct) auto

lemma sorted_map_of_None:
  "\<forall>k' \<in> fst ` set r. k < k' \<Longrightarrow> map_of r (k::string) = None"
  by (induction r) auto

lemma radix_insert_new:
  "sorted_wrt (<) (map fst r) \<Longrightarrow> map_of r k = None \<Longrightarrow>
     length (radix_insert k v r) = length r + 1
     \<and> sum_list (map snd (radix_insert k v r)) = (v::int) + sum_list (map snd r)"
  by (induction k v r rule: radix_insert.induct) (auto split: if_splits)

lemma radix_insert_old:
  "sorted_wrt (<) (map fst r) \<Longrightarrow> map_of r k = Some (n::int) \<Longrightarrow>
     length (radix_insert k v r) = length r
     \<and> sum_list (map snd (radix_insert k v r)) = v - n + sum_list (map snd r)"
proof (induction k v r rule: radix_insert.induct)
  case (1 k v)
  then show ?case by simp
next
  case (2 k v k' v' r)
  show ?case
  proof (cases "k = k'")
    case True
    with 2 show ?thesis by simp
  next
    case False
    note ne = this
    show ?thesis
    proof (cases "k < k'")
      case True
      with "2.prems" have "\<forall>x \<in> fst ` set ((k', v') # r). k < x"
        by (auto dest: less_trans)
      then have "map_of ((k', v') # r) k = None"
        by (rule sorted_map_of_None)
      with "2.prems" show ?thesis by simp
    next
      case False
      with ne 2 show ?thesis by simp
    qed
  qed
qed


lemma map_of_value: "map_of r k = Some v \<Longrightarrow> \<exists>e \<in> set r. snd e = v"
  by (induction r) (auto split: if_splits)

lemma compress_count_props:
  assumes "\<forall>site \<in> set sites. read_column (store a) site (seqs a) = Some (col site)"
    and "sorted_wrt (<) (map fst r)" and "\<forall>e \<in> set r. 1 \<le> snd e"
  shows "\<exists>r'. compress_count a sites r (length r) = Some (r', length r')
            \<and> sorted_wrt (<) (map fst r') \<and> (\<forall>e \<in> set r'. 1 \<le> snd e)
            \<and> fst ` set r' = fst ` set r \<union> col ` set sites
            \<and> sum_list (map snd r') = sum_list (map snd r) + int (length sites)"
  using assms
proof (induction sites arbitrary: r)
  case Nil
  then show ?case by simp
next
  case (Cons site sites)
  have rd: "read_column (store a) site (seqs a) = Some (col site)"
    using Cons.prems(1) by simp
  have rest: "\<forall>site \<in> set sites. read_column (store a) site (seqs a) = Some (col site)"
    using Cons.prems(1) by simp
  show ?case
  proof (cases "map_of r (col site)")
    case None
    let ?r = "radix_insert (col site) 1 r"
    have 1: "sorted_wrt (<) (map fst ?r)"
      using Cons.prems(2) by (rule radix_insert_sorted)
    have 2: "\<forall>e \<in> set ?r. 1 \<le> snd e"
      using Cons.prems(3) radix_insert_values [of r "\<lambda>v. 1 \<le> v" 1 "col site"] by simp
    have 3: "length ?r = length r + 1" "sum_list (map snd ?r) = 1 + sum_list (map snd r)"
      using radix_insert_new [OF Cons.prems(2) None, of 1] by simp_all
    from Cons.IH [OF rest 1 2] obtain r' where
      "compress_count a sites ?r (length ?r) = Some (r', length r')"
      "sorted_wrt (<) (map fst r')" "\<forall>e \<in> set r'. 1 \<le> snd e"
      "fst ` set r' = fst ` set ?r \<union> col ` set sites"
      "sum_list (map snd r') = sum_list (map snd ?r) + int (length sites)"
      by blast
    with rd None 3 show ?thesis
      by (simp add: radix_insert_keys)
  next
    case (Some n)
    let ?r = "radix_insert (col site) (n + 1) r"
    have n: "1 \<le> n"
      using Cons.prems(3) map_of_value [OF Some] by blast
    have 1: "sorted_wrt (<) (map fst ?r)"
      using Cons.prems(2) by (rule radix_insert_sorted)
    have 2: "\<forall>e \<in> set ?r. 1 \<le> snd e"
      using Cons.prems(3) n radix_insert_values [of r "\<lambda>v. 1 \<le> v" "n + 1" "col site"] by simp
    have 3: "length ?r = length r" "sum_list (map snd ?r) = 1 + sum_list (map snd r)"
      using radix_insert_old [OF Cons.prems(2) Some, of "n + 1"] by simp_all
    from Cons.IH [OF rest 1 2] obtain r' where
      "compress_count a sites ?r (length ?r) = Some (r', length r')"
      "sorted_wrt (<) (map fst r')" "\<forall>e \<in> set r'. 1 \<le> snd e"
      "fst ` set r' = fst ` set ?r \<union> col ` set sites"
      "sum_list (map snd r') = sum_list (map snd ?r) + int (length sites)"
      by blast
    with rd Some 3 show ?thesis
      by (simp add: radix_insert_keys)
  qed
qed

lemma write_pattern_keeps:
  "write_pattern ps npat xs st = Some st' \<Longrightarrow>
     length (sequence (st' p)) = length (sequence (st p))
     \<and> name (st' p) = name (st p) \<and> comment (st' p) = comment (st p)"
  by (induction ps npat xs st rule: write_pattern.induct) (auto split: if_splits)

lemma write_pattern_Some:
  "\<forall>x \<in> set xs. fst x < length ps \<Longrightarrow> \<forall>p \<in> set ps. npat < length (sequence (st p)) \<Longrightarrow>
     \<exists>st'. write_pattern ps npat xs st = Some st'"
  by (induction ps npat xs st rule: write_pattern.induct) auto

lemma range_string_ascii:
  "\<forall>c \<in> set cs. ascii c \<Longrightarrow> \<forall>x \<in> set (range_string off cs). fst x < off + length cs"
  by (induction cs arbitrary: off) fastforce+

lemma compress_walk_keeps:
  "compress_walk ps r npat w st = Some (npat', w', st') \<Longrightarrow>
     npat' = npat + length r \<and> (r = [] \<or> npat + length r \<le> length w)
     \<and> w' = take npat w @ map snd r @ drop (npat + length r) w
     \<and> (\<forall>p. length (sequence (st' p)) = length (sequence (st p))
            \<and> name (st' p) = name (st p) \<and> comment (st' p) = comment (st p))"
proof (induction ps r npat w st rule: compress_walk.induct)
  case (1 ps npat weights st)
  then show ?case by simp
next
  case (2 ps pattern count r npat weights st)
  from "2.prems" have lt: "npat < length weights"
    by (simp split: if_splits)
  with "2.prems" obtain st1 where
    w: "write_pattern ps npat (range_string 0 pattern) st = Some st1"
    and c: "compress_walk ps r (npat + 1) (weights[npat := count]) st1 = Some (npat', w', st')"
    by (auto split: option.splits)
  from "2.IH" [OF _ w c] lt have ih:
    "npat' = npat + 1 + length r" "r = [] \<or> npat + 1 + length r \<le> length weights"
    "w' = take (npat + 1) (weights[npat := count]) @ map snd r
            @ drop (npat + 1 + length r) (weights[npat := count])"
    "\<forall>p. length (sequence (st' p)) = length (sequence (st1 p))
            \<and> name (st' p) = name (st1 p) \<and> comment (st' p) = comment (st1 p)"
    by simp_all
  have "take (npat + 1) (weights[npat := count]) = take npat weights @ [count]"
    using lt by (simp add: take_Suc_conv_app_nth)
  with ih lt write_pattern_keeps [OF w] show ?case by auto
qed

lemma compress_walk_Some:
  assumes "npat + length r \<le> length w"
    and "\<forall>e \<in> set r. \<forall>x \<in> set (range_string 0 (fst e)). fst x < length ps"
    and "\<forall>p \<in> set ps. npat + length r \<le> length (sequence (st p))"
  shows "\<exists>res. compress_walk ps r npat w st = Some res"
  using assms
proof (induction ps r npat w st rule: compress_walk.induct)
  case (1 ps npat weights st)
  then show ?case by simp
next
  case (2 ps pattern count r npat weights st)
  have "\<forall>x \<in> set (range_string 0 pattern). fst x < length ps"
    using "2.prems"(2) by simp
  moreover have "\<forall>p \<in> set ps. npat < length (sequence (st p))"
    using "2.prems"(3) by auto
  ultimately obtain st1 where w: "write_pattern ps npat (range_string 0 pattern) st = Some st1"
    using write_pattern_Some by blast
  have lt: "npat < length weights"
    using "2.prems"(1) by simp
  have "\<exists>res. compress_walk ps r (npat + 1) (weights[npat := count]) st1 = Some res"
  proof (rule "2.IH" [OF _ w])
    show "\<not> \<not> npat < length weights" using lt by simp
    show "npat + 1 + length r \<le> length (weights[npat := count])"
      using "2.prems"(1) by simp
    show "\<forall>e \<in> set r. \<forall>x \<in> set (range_string 0 (fst e)). fst x < length ps"
      using "2.prems"(2) by simp
    show "\<forall>p \<in> set ps. npat + 1 + length r \<le> length (sequence (st1 p))"
      using "2.prems"(3) write_pattern_keeps [OF w] by simp
  qed
  with w lt show ?case by simp
qed

lemma length_le_sum_list: "\<forall>v \<in> set vs. (1::int) \<le> v \<Longrightarrow> int (length vs) \<le> sum_list vs"
  by (induction vs) auto


lemma read_columns_ok:
  assumes "rows_ok a"
  shows "\<forall>site \<in> set [0 ..< nat (Length a)].
           read_column (store a) site (seqs a) = Some (map (\<lambda>p. sequence (store a p) ! site) (seqs a))"
proof
  fix site assume "site \<in> set [0 ..< nat (Length a)]"
  with assms have "\<forall>p \<in> set (seqs a). site < length (sequence (store a p))"
    by (auto simp: rows_ok_def Length_def)
  then show "read_column (store a) site (seqs a)
               = Some (map (\<lambda>p. sequence (store a p) ! site) (seqs a))"
    by (rule read_column_Some)
qed

lemma compress_count_columns:
  assumes "rows_ok a"
  shows "\<exists>r. compress_count a [0 ..< nat (Length a)] [] 0 = Some (r, length r)
           \<and> sorted_wrt (<) (map fst r) \<and> (\<forall>e \<in> set r. 1 \<le> snd e)
           \<and> fst ` set r = set (columns a)
           \<and> sum_list (map snd r) = int (nat (Length a))"
  using compress_count_props [OF read_columns_ok [OF assms], of "[]"]
  by (simp add: columns_def)

lemma Compress_result:
  assumes "rows_ok a" and "distinct (seqs a)" and "Compress a = Return (w, a')"
  shows "(\<forall>x \<in> set w. 1 \<le> x) \<and> sum_list w = int (nat (Length a))
       \<and> length w = card (set (columns a))
       \<and> alength a' = int (length w)
       \<and> seqs a' = seqs a \<and> seqmap a' = seqmap a \<and> nextref a' = nextref a
       \<and> alphabet a' = alphabet a
       \<and> (\<forall>p. name (store a' p) = name (store a p) \<and> comment (store a' p) = comment (store a p))
       \<and> (\<forall>p \<in> set (seqs a). length (sequence (store a' p)) = length w)"
proof -
  from compress_count_columns [OF assms(1)] obtain r where
    cnt: "compress_count a [0 ..< nat (Length a)] [] 0 = Some (r, length r)"
    and srt: "sorted_wrt (<) (map fst r)" and ge: "\<forall>e \<in> set r. 1 \<le> snd e"
    and keys: "fst ` set r = set (columns a)"
    and sum: "sum_list (map snd r) = int (nat (Length a))"
    by blast
  from assms(3) cnt obtain npat weights st st' where
    walk: "compress_walk (seqs a) r 0 (replicate (length r) 0) (store a) = Some (npat, weights, st)"
    and trunc: "each_row (truncate_row npat) (seqs a) st = Some st'"
    and w: "w = weights" and a': "a' = a\<lparr>store := st', alength := int npat\<rparr>"
    by (auto simp: Compress_def split: option.splits)
  from compress_walk_keeps [OF walk] have
    npat: "npat = length r" and weights: "weights = map snd r"
    and keep: "\<forall>p. length (sequence (st p)) = length (sequence (store a p))
                 \<and> name (st p) = name (store a p) \<and> comment (st p) = comment (store a p)"
    by simp_all
  have "int (length (map snd r)) \<le> sum_list (map snd r)"
    using ge by (intro length_le_sum_list) simp
  with sum have le: "length r \<le> nat (Length a)" by (simp split: if_splits)
  have rows: "\<forall>p \<in> set (seqs a). length (sequence (st p)) = nat (Length a)"
    using assms(1) keep by (auto simp: rows_ok_def Length_def)
  have "\<forall>p \<in> set (seqs a). truncate_row npat (sequence (st p)) = Some (take npat (sequence (st p)))"
    using rows le npat by (simp add: truncate_row_def)
  from each_row_Some [OF assms(2) this] trunc
  have st': "st' = (\<lambda>p. if p \<in> set (seqs a) then (st p)\<lparr>sequence := take npat (sequence (st p))\<rparr>
                         else st p)"
    by simp
  have "distinct (map fst r)"
    using srt by (simp add: strict_sorted_iff)
  from distinct_card [OF this] have "card (set (map fst r)) = length r"
    by simp
  then have card: "length r = card (set (columns a))"
    using keys by simp
  show ?thesis
    using ge sum card keep rows le by (auto simp: w a' weights npat st')
qed

lemma Compress_returns:
  assumes "rows_ok a" and "distinct (seqs a)" and "ascii_align a"
  shows "\<exists>w a'. Compress a = Return (w, a')"
proof -
  from compress_count_columns [OF assms(1)] obtain r where
    cnt: "compress_count a [0 ..< nat (Length a)] [] 0 = Some (r, length r)"
    and ge: "\<forall>e \<in> set r. 1 \<le> snd e"
    and keys: "fst ` set r = set (columns a)"
    and sum: "sum_list (map snd r) = int (nat (Length a))"
    by blast
  have "int (length (map snd r)) \<le> sum_list (map snd r)"
    using ge by (intro length_le_sum_list) simp
  with sum have le: "length r \<le> nat (Length a)" by (simp split: if_splits)
  have rows: "\<forall>p \<in> set (seqs a). length (sequence (store a p)) = nat (Length a)"
    using assms(1) by (auto simp: rows_ok_def Length_def)
  have off: "\<forall>e \<in> set r. \<forall>x \<in> set (range_string 0 (fst e)). fst x < length (seqs a)"
  proof
    fix e assume "e \<in> set r"
    with keys have "fst e \<in> set (columns a)" by auto
    then obtain site where site: "site < nat (Length a)"
      and e: "fst e = map (\<lambda>p. sequence (store a p) ! site) (seqs a)"
      by (auto simp: columns_def)
    have "\<forall>c \<in> set (fst e). ascii c"
      using assms(3) rows site by (auto simp: e ascii_align_def)
    from range_string_ascii [OF this, of 0]
    show "\<forall>x \<in> set (range_string 0 (fst e)). fst x < length (seqs a)"
      by (simp add: e)
  qed
  have "\<exists>res. compress_walk (seqs a) r 0 (replicate (length r) 0) (store a) = Some res"
    using off rows le by (intro compress_walk_Some) simp_all
  then obtain npat weights st where
    walk: "compress_walk (seqs a) r 0 (replicate (length r) 0) (store a) = Some (npat, weights, st)"
    by (metis prod_cases3)
  from compress_walk_keeps [OF walk] have
    npat: "npat = length r"
    and keep: "\<forall>p. length (sequence (st p)) = length (sequence (store a p))"
    by simp_all
  have "\<forall>p \<in> set (seqs a). truncate_row npat (sequence (st p)) = Some (take npat (sequence (st p)))"
    using rows le npat keep by (simp add: truncate_row_def)
  from each_row_Some [OF assms(2) this] cnt walk show ?thesis
    by (simp add: Compress_def)
qed

text \<open>
  Compress on ASCII symbols. On an alignment of length at least 0 whose rows all have
  \<open>alength\<close> symbols, all of them ASCII, Compress returns; every weight is at least 1 and the weights sum to the
  length before the call; after it the length is the number of weights, which is the
  number of distinct columns, and every row has that many symbols.
\<close>

theorem Compress_weights:
  assumes "rows_ok a" and "distinct (seqs a)" and "ascii_align a" and "0 \<le> Length a"
  shows "\<exists>w a'. Compress a = Return (w, a')
           \<and> (\<forall>x \<in> set w. 1 \<le> x) \<and> sum_list w = Length a
           \<and> Length a' = int (length w)
           \<and> length w = card (set (columns a))
           \<and> seqs a' = seqs a
           \<and> (\<forall>p \<in> set (seqs a'). length (sequence (store a' p)) = length w)"
proof -
  from Compress_returns [OF assms(1-3)] obtain w a' where ret: "Compress a = Return (w, a')"
    by blast
  from Compress_result [OF assms(1,2) ret] assms(4) ret show ?thesis
    by (auto simp: Length_def)
qed

theorem Compress_weights_witness:
  "rows_ok (mk_align 1 [(''s1'', ''ACAAC''), (''s2'', ''GTGGT''), (''s3'', ''TTATT'')])
   \<and> distinct (seqs (mk_align 1 [(''s1'', ''ACAAC''), (''s2'', ''GTGGT''), (''s3'', ''TTATT'')]))
   \<and> ascii_align (mk_align 1 [(''s1'', ''ACAAC''), (''s2'', ''GTGGT''), (''s3'', ''TTATT'')])
   \<and> Length (mk_align 1 [(''s1'', ''ACAAC''), (''s2'', ''GTGGT''), (''s3'', ''TTATT'')]) = 5
   \<and> (\<exists>w a'. Compress (mk_align 1 [(''s1'', ''ACAAC''), (''s2'', ''GTGGT''), (''s3'', ''TTATT'')])
                   = Return (w, a')
          \<and> sum_list w = 5 \<and> Length a' = int (length w))
   \<and> (case Compress (mk_align 1 [(''s1'', ''ACAAC''), (''s2'', ''GTGGT''), (''s3'', ''TTATT'')]) of
        Return (w, a') \<Rightarrow> w = [1, 2, 2] \<and> Length a' = 3
                           \<and> map (\<lambda>p. sequence (store a' p)) (seqs a') = [''AAC'', ''GGT'', ''ATT'']
      | _ \<Rightarrow> False)"
proof -
  let ?a = "mk_align 1 [(''s1'', ''ACAAC''), (''s2'', ''GTGGT''), (''s3'', ''TTATT'')]"
  have s: "seqs ?a = [0, 1, 2]" by (simp add: mk_align_def upt_rec)
  have r: "rows_ok ?a" by (simp add: rows_ok_def s) (simp add: mk_align_def)
  have d: "distinct (seqs ?a)" by (simp add: s)
  have c: "ascii_align ?a" by (simp add: ascii_align_def s) (simp add: mk_align_def ascii_def)
  have l: "Length ?a = 5" by (simp add: Length_def mk_align_def)
  have l0: "0 \<le> Length ?a" by (simp add: l)
  have e: "case Compress ?a of
        Return (w, a') \<Rightarrow> w = [1, 2, 2] \<and> Length a' = 3
                           \<and> map (\<lambda>p. sequence (store a' p)) (seqs a') = [''AAC'', ''GGT'', ''ATT'']
      | _ \<Rightarrow> False"
    by code_simp
  from Compress_weights [OF r d c l0] l
  have "\<exists>w a'. Compress ?a = Return (w, a') \<and> sum_list w = 5 \<and> Length a' = int (length w)"
    by auto
  with r d c l e show ?thesis by blast
qed


section \<open>Properties of the operations that change an alignment\<close>

lemma each_row_result:
  assumes "each_row f ps st = Some st'" and "distinct ps"
  shows "(\<forall>p. p \<notin> set ps \<longrightarrow> st' p = st p)
       \<and> (\<forall>p. name (st' p) = name (st p) \<and> comment (st' p) = comment (st p))
       \<and> (\<forall>p \<in> set ps. f (sequence (st p)) = Some (sequence (st' p)))"
  using assms
proof (induction ps arbitrary: st)
  case Nil
  then show ?case by simp
next
  case (Cons q qs)
  from Cons.prems obtain s where s: "f (sequence (st q)) = Some s"
    and r: "each_row f qs (st(q := (st q)\<lparr>sequence := s\<rparr>)) = Some st'"
    by (auto split: option.splits)
  from Cons.prems have q: "q \<notin> set qs" and d: "distinct qs" by auto
  from Cons.IH [OF r d] have ih:
    "\<forall>p. p \<notin> set qs \<longrightarrow> st' p = (st(q := (st q)\<lparr>sequence := s\<rparr>)) p"
    "\<forall>p. name (st' p) = name ((st(q := (st q)\<lparr>sequence := s\<rparr>)) p)
         \<and> comment (st' p) = comment ((st(q := (st q)\<lparr>sequence := s\<rparr>)) p)"
    "\<forall>p \<in> set qs. f (sequence ((st(q := (st q)\<lparr>sequence := s\<rparr>)) p)) = Some (sequence (st' p))"
    by blast+
  have 1: "\<forall>p. p \<notin> set (q # qs) \<longrightarrow> st' p = st p"
    using ih(1) by simp
  have 2: "\<forall>p. name (st' p) = name (st p) \<and> comment (st' p) = comment (st p)"
    using ih(2) by simp
  have "st' q = (st q)\<lparr>sequence := s\<rparr>"
    using ih(1) q by simp
  then have 3: "f (sequence (st q)) = Some (sequence (st' q))"
    using s by simp
  have 4: "\<forall>p \<in> set qs. f (sequence (st p)) = Some (sequence (st' p))"
  proof
    fix p assume p: "p \<in> set qs"
    with q have "p \<noteq> q" by auto
    with ih(3) p show "f (sequence (st p)) = Some (sequence (st' p))" by auto
  qed
  from 1 2 3 4 show ?case by simp
qed

lemma wf_store:
  assumes "well_formed a" and "\<forall>p. name (st p) = name (store a p)"
    and "\<forall>p \<in> set (seqs a). int (length (sequence (st p))) = len"
  shows "well_formed (a\<lparr>store := st, alength := len\<rparr>)"
  using assms by (auto simp: well_formed_def linked_def rows_ok_def)

lemma wf_rows: "well_formed a \<Longrightarrow> p \<in> set (seqs a) \<Longrightarrow> int (length (sequence (store a p))) = alength a"
  by (simp add: well_formed_def rows_ok_def)

lemma trim_row_length:
  "trim_row t fromStart s = Some s' \<Longrightarrow> length s' + t = length s"
  by (auto simp: trim_row_def split: if_splits)

lemma TrimSequences_wf:
  assumes "well_formed a" and "TrimSequences trimsize fromStart a = Return (e, a')"
  shows "well_formed a'"
proof (cases "trimsize < 0 \<or> trimsize \<ge> Length a")
  case True
  with assms show ?thesis by (auto simp: TrimSequences_def split: if_splits)
next
  case False
  with assms(2) obtain st where
    st: "each_row (trim_row (nat trimsize) fromStart) (seqs a) (store a) = Some st"
    and a': "a' = a\<lparr>store := st, alength := alength a - trimsize\<rparr>"
    by (auto simp: TrimSequences_def split: option.splits)
  from assms(1) have d: "distinct (seqs a)" by (simp add: well_formed_def linked_def)
  note r = each_row_result [OF st d]
  have "\<forall>p \<in> set (seqs a). int (length (sequence (st p))) = alength a - trimsize"
  proof
    fix p assume p: "p \<in> set (seqs a)"
    with r have "trim_row (nat trimsize) fromStart (sequence (store a p)) = Some (sequence (st p))"
      by simp
    from trim_row_length [OF this] wf_rows [OF assms(1) p] False
    show "int (length (sequence (st p))) = alength a - trimsize"
      unfolding Length_def by linarith
  qed
  with r show ?thesis unfolding a' by (intro wf_store [OF assms(1)]) simp_all
qed

lemma Mask_wf:
  assumes "well_formed a" and "Mask x n start len a = Return (e, a')"
  shows "well_formed a'"
proof (cases "start < 0 \<or> start > Length a")
  case True
  with assms show ?thesis by (auto simp: Mask_def split: if_splits)
next
  case False
  with assms(2) obtain rep st where
    st: "each_row (mask_row rep (mask_indices start len (Length a))) (seqs a) (store a) = Some st"
    and a': "a' = a\<lparr>store := st\<rparr>"
    by (auto simp: Mask_def Let_def split: option.splits if_splits)
  from assms(1) have d: "distinct (seqs a)" by (simp add: well_formed_def linked_def)
  note r = each_row_result [OF st d]
  have "\<forall>p \<in> set (seqs a). int (length (sequence (st p))) = alength a"
  proof
    fix p assume p: "p \<in> set (seqs a)"
    with r have "mask_row rep (mask_indices start len (Length a)) (sequence (store a p))
                   = Some (sequence (st p))"
      by simp
    from mask_row_length [OF this] wf_rows [OF assms(1) p]
    show "int (length (sequence (st p))) = alength a" by simp
  qed
  with r have "well_formed (a\<lparr>store := st, alength := alength a\<rparr>)"
    by (intro wf_store [OF assms(1)]) simp_all
  then show ?thesis by (simp add: a')
qed

lemma remove_at_length: "remove_at k xs = Some ys \<Longrightarrow> length ys + 1 = length xs"
  by (auto simp: remove_at_def split: if_splits)

lemma remove_sites_result:
  assumes "remove_sites ends f ps ks lc nb st = Some (nb', st')" and "distinct ps"
  shows "(\<forall>p. name (st' p) = name (st p))
       \<and> (\<forall>p \<in> set ps. length (sequence (st' p)) + nb' = length (sequence (st p)) + nb)"
  using assms
proof (induction ks arbitrary: lc nb st)
  case Nil
  then show ?case by simp
next
  case (Cons k ks)
  let ?last = "if int k = lc - 1 then lc - 1 else lc"
  show ?case
  proof (cases "\<not> ends \<or> ?last = int k \<or> int k \<le> f")
    case True
    with Cons.prems(1) obtain st1 where
      e: "each_row (remove_at k) ps st = Some st1"
      and r: "remove_sites ends f ps ks ?last (nb + 1) st1 = Some (nb', st')"
      by (auto simp: Let_def split: option.splits)
    note er = each_row_result [OF e Cons.prems(2)]
    have "\<forall>p \<in> set ps. length (sequence (st1 p)) + 1 = length (sequence (st p))"
    proof
      fix p assume "p \<in> set ps"
      with er have "remove_at k (sequence (st p)) = Some (sequence (st1 p))" by simp
      then show "length (sequence (st1 p)) + 1 = length (sequence (st p))"
        by (rule remove_at_length)
    qed
    with Cons.IH [OF r Cons.prems(2)] er show ?thesis by auto
  next
    case False
    with Cons.prems(1) have "remove_sites ends f ps ks ?last nb st = Some (nb', st')"
      by (auto simp: Let_def)
    from Cons.IH [OF this Cons.prems(2)] show ?thesis .
  qed
qed

lemma RemoveGapSites_wf:
  assumes "well_formed a" and "RemoveGapSites test ends a = Return a'"
  shows "well_formed a'"
proof -
  from assms(2) obtain toremove f nb st where
    r: "remove_sites ends f (seqs a) (rev (sort toremove)) (Length a) 0 (store a) = Some (nb, st)"
    and a': "a' = a\<lparr>store := st, alength := alength a - int nb\<rparr>"
    by (auto simp: RemoveGapSites_def split: option.splits)
  from assms(1) have d: "distinct (seqs a)" by (simp add: well_formed_def linked_def)
  note rr = remove_sites_result [OF r d]
  have "\<forall>p \<in> set (seqs a). int (length (sequence (st p))) = alength a - int nb"
  proof
    fix p assume p: "p \<in> set (seqs a)"
    with rr have "length (sequence (st p)) + nb = length (sequence (store a p))" by simp
    with wf_rows [OF assms(1) p] show "int (length (sequence (st p))) = alength a - int nb"
      by linarith
  qed
  with rr show ?thesis unfolding a' by (intro wf_store [OF assms(1)]) simp_all
qed

lemma Compress_wf:
  assumes "well_formed a" and "Compress a = Return (w, a')"
  shows "well_formed a'"
proof -
  from assms(1) have r: "rows_ok a" and d: "distinct (seqs a)" by (simp_all add: well_formed_def linked_def)
  note c = Compress_result [OF r d assms(2)]
  have "a' = a\<lparr>store := store a', alength := int (length w)\<rparr>"
    using c by simp
  moreover have "well_formed (a\<lparr>store := store a', alength := int (length w)\<rparr>)"
    using c by (intro wf_store [OF assms(1)]) simp_all
  ultimately show ?thesis by simp
qed


lemma digits_value_snoc: "digits_value (xs @ [c]) = 10 * digits_value xs + (of_char c - 48)"
  by (simp add: digits_value_def)

lemma digits_value_dec: "digits_value (dec n) = n"
proof (induction n rule: dec.induct)
  case (1 n)
  show ?case
  proof (cases "n < 10")
    case True
    then show ?thesis
      by (subst dec.simps) (simp add: digits_value_def)
  next
    case False
    have "n mod 10 < 10" by simp
    then have "(48 + n mod 10) mod 256 = 48 + n mod 10" by simp
    with False "1.IH" show ?thesis
      by (subst dec.simps) (simp add: digits_value_snoc)
  qed
qed

lemma digits_value_zeros: "digits_value (replicate k (CHR ''0'') @ s) = digits_value s"
proof -
  have "foldl (\<lambda>a c. 10 * a + (of_char c - 48)) (0::nat) (replicate k (CHR ''0'')) = 0"
    by (induction k) simp_all
  then show ?thesis by (simp add: digits_value_def)
qed

lemma renamed_inj: "renamed nm i = renamed nm j \<Longrightarrow> i = j"
proof -
  assume "renamed nm i = renamed nm j"
  then have "pad4 (dec i) = pad4 (dec j)"
    by (simp add: renamed_def)
  then have "digits_value (pad4 (dec i)) = digits_value (pad4 (dec j))"
    by simp
  then show "i = j"
    by (simp add: pad4_def digits_value_zeros digits_value_dec)
qed

lemma rename_loop_terminates:
  assumes "m (renamed nm j) = None" and "idx < j"
  shows "\<exists>t. rename_loop m nm idx = Some t"
  using assms(2)
proof (induction "j - idx" arbitrary: idx)
  case 0
  then show ?case by simp
next
  case (Suc d)
  show ?case
  proof (cases "m (renamed nm (idx + 1)) = None")
    case True
    then show ?thesis by (subst rename_loop.simps) simp
  next
    case False
    with assms(1) have "idx + 1 \<noteq> j" by auto
    with Suc.prems have lt: "idx + 1 < j" by simp
    from Suc.hyps(2) have "d = j - (idx + 1)" by simp
    from Suc.hyps(1) [OF this lt] False show ?thesis
      by (subst rename_loop.simps) simp
  qed
qed

lemma free_name_exists:
  assumes "finite (dom m)"
  shows "\<exists>j > idx. m (renamed nm j) = None"
proof (rule ccontr)
  assume "\<not> (\<exists>j > idx. m (renamed nm j) = None)"
  then have "renamed nm ` {idx <..} \<subseteq> dom m" by auto
  with assms have "finite (renamed nm ` {idx <..})" by (rule rev_finite_subset)
  moreover have "inj_on (renamed nm) {idx <..}"
    by (auto simp: inj_on_def dest: renamed_inj)
  ultimately have "finite {idx <..}" by (rule finite_imageD)
  then show False by (simp add: infinite_Ioi)
qed

lemma new_name_terminates: "finite (dom m) \<Longrightarrow> \<exists>t. new_name m nm = Some t"
  using free_name_exists [of m 0 nm] rename_loop_terminates [of m nm _ 0]
  by (auto simp: new_name_def)

lemma rename_loop_fresh:
  assumes "rename_loop m nm idx = Some t"
  shows "m t = None"
  by (rule rename_loop.raw_induct [where P = "\<lambda>m nm idx t. m t = None", OF _ assms])
     (auto split: if_splits)

lemma new_name_fresh: "new_name m nm = Some t \<Longrightarrow> m t = None"
  by (auto simp: new_name_def rename_loop_fresh split: if_splits)

lemma new_name_absent: "m nm = None \<Longrightarrow> new_name m nm = Some nm"
  by (simp add: new_name_def)

lemma linked_finite_dom:
  assumes "linked a"
  shows "finite (dom (seqmap a))"
proof -
  have "dom (seqmap a) \<subseteq> (\<lambda>p. name (store a p)) ` set (seqs a)"
    using assms by (auto simp: linked_def)
  then show ?thesis by (rule finite_subset) simp
qed

lemma AddSequenceChar_linked:
  assumes "linked a" and "AddSequenceChar nm sq cm a = Some (e, a')"
  shows "linked a'"
proof -
  from assms(2) obtain t where t: "new_name (seqmap a) nm = Some t"
    by (auto simp: AddSequenceChar_def split: option.splits)
  then have fresh: "seqmap a t = None" by (rule new_name_fresh)
  show ?thesis
  proof (cases e)
    case (Some err)
    with assms(2) t have "a' = a" by (auto simp: AddSequenceChar_def split: if_splits)
    with assms(1) show ?thesis by simp
  next
    case None
    with assms(2) t have a': "a' = a\<lparr>alength := int (length sq),
                   store := (store a)(nextref a := NewSequence t sq cm),
                   nextref := nextref a + 1,
                   seqmap := (seqmap a)(t \<mapsto> nextref a),
                   seqs := seqs a @ [nextref a]\<rparr>"
      by (auto simp: AddSequenceChar_def split: if_splits)
    from assms(1) have old: "\<forall>p \<in> set (seqs a). p < nextref a \<and> seqmap a (name (store a p)) = Some p"
      and bk: "\<forall>n p. seqmap a n = Some p \<longrightarrow> p \<in> set (seqs a) \<and> name (store a p) = n"
      and d: "distinct (seqs a)"
      by (simp_all add: linked_def)
    have new: "nextref a \<notin> set (seqs a)" using old by auto
    have ne: "\<forall>p \<in> set (seqs a). name (store a p) \<noteq> t" using old fresh by auto
    show ?thesis
      unfolding linked_def a' using d old bk new ne
      by (auto simp: NewSequence_def)
  qed
qed


lemma AddSequenceChar_wf:
  assumes "well_formed a" and "AddSequenceChar nm sq cm a = Some (e, a')"
  shows "well_formed a'"
proof -
  from assms(1) have l: "linked a" and r: "rows_ok a" by (simp_all add: well_formed_def)
  have l': "linked a'" using l assms(2) by (rule AddSequenceChar_linked)
  from assms(2) obtain t where t: "new_name (seqmap a) nm = Some t"
    by (auto simp: AddSequenceChar_def split: option.splits)
  show ?thesis
  proof (cases e)
    case (Some err)
    with assms(2) t have "a' = a" by (auto simp: AddSequenceChar_def split: if_splits)
    with assms(1) show ?thesis by simp
  next
    case None
    with assms(2) t have a': "a' = a\<lparr>alength := int (length sq),
                   store := (store a)(nextref a := NewSequence t sq cm),
                   nextref := nextref a + 1,
                   seqmap := (seqmap a)(t \<mapsto> nextref a),
                   seqs := seqs a @ [nextref a]\<rparr>"
      and len: "alength a = -1 \<or> alength a = int (length sq)"
      by (auto simp: AddSequenceChar_def split: if_splits)
    have new: "nextref a \<notin> set (seqs a)" using l by (auto simp: linked_def)
    have "\<forall>p \<in> set (seqs a). int (length (sequence (store a p))) = int (length sq)"
    proof
      fix p assume "p \<in> set (seqs a)"
      with r have "int (length (sequence (store a p))) = alength a" by (simp add: rows_ok_def)
      with len show "int (length (sequence (store a p))) = int (length sq)" by linarith
    qed
    with new have "rows_ok a'"
      by (auto simp: rows_ok_def a' NewSequence_def)
    with l' show ?thesis by (simp add: well_formed_def)
  qed
qed

lemma AddSequenceChar_mismatch:
  assumes "linked a" and "alength a \<noteq> -1" and "alength a \<noteq> int (length sq)"
  shows "\<exists>t. AddSequenceChar nm sq cm a = Some (Some (SeqLengthMismatch t), a)"
proof -
  from new_name_terminates [OF linked_finite_dom [OF assms(1)]]
  obtain t where "new_name (seqmap a) nm = Some t" by blast
  with assms(2,3) show ?thesis by (simp add: AddSequenceChar_def)
qed

lemma appendToSequence_found:
  "seqmap a n = Some p \<Longrightarrow>
     appendToSequence n sq a
       = (None, a\<lparr>store := (store a)(p := (store a p)\<lparr>sequence := sequence (store a p) @ sq\<rparr>)\<rparr>)"
  by (simp add: appendToSequence_def)

lemma linked_store:
  "linked a \<Longrightarrow> \<forall>p. name (st p) = name (store a p) \<Longrightarrow> linked (a\<lparr>store := st\<rparr>)"
  by (simp add: linked_def)

lemma concat_pad_result:
  assumes "linked a" and "concat_pad c ps a = Some a1" and "set ps \<subseteq> set (seqs a)"
    and "distinct ps"
  shows "\<exists>st. a1 = a\<lparr>store := st\<rparr> \<and> (\<forall>p. name (st p) = name (store a p))
           \<and> (\<forall>p. length (sequence (st p))
                    = length (sequence (store a p))
                      + (if p \<in> set ps \<and> seqmap c (name (store a p)) = None
                         then nat (Length c) else 0))"
  using assms
proof (induction ps arbitrary: a)
  case Nil
  then have "a1 = a\<lparr>store := store a\<rparr>" by simp
  then show ?case by fastforce
next
  case (Cons p ps)
  from Cons.prems have p: "p \<in> set (seqs a)" and sub: "set ps \<subseteq> set (seqs a)"
    and np: "p \<notin> set ps" and d: "distinct ps"
    by auto
  show ?case
  proof (cases "seqmap c (name (store a p))")
    case None
    then have g0: "\<not> snd (GetSequenceChar c (name (store a p)))"
      by (simp add: GetSequenceChar_def)
    with Cons.prems(2) obtain g where g: "gap_run (Length c) = Some g"
      by (auto split: option.splits)
    then have lg: "length g = nat (Length c)"
      by (auto simp: gap_run_def split: if_splits)
    from Cons.prems(1) p have "seqmap a (name (store a p)) = Some p"
      by (simp add: linked_def)
    note ap = appendToSequence_found [OF this, of g]
    let ?st2 = "(store a)(p := (store a p)\<lparr>sequence := sequence (store a p) @ g\<rparr>)"
    let ?a2 = "a\<lparr>store := ?st2\<rparr>"
    from Cons.prems(2) g0 g ap have r: "concat_pad c ps ?a2 = Some a1" by simp
    have l2: "linked ?a2" using Cons.prems(1) by (intro linked_store) simp_all
    from Cons.IH [OF l2 r] sub d obtain st where
      1: "a1 = ?a2\<lparr>store := st\<rparr>" and 2: "\<forall>p'. name (st p') = name (?st2 p')"
      and 3: "\<forall>p'. length (sequence (st p'))
                    = length (sequence (?st2 p'))
                      + (if p' \<in> set ps \<and> seqmap c (name (?st2 p')) = None
                         then nat (Length c) else 0)"
      by auto
    have "a1 = a\<lparr>store := st\<rparr>" using 1 by simp
    moreover have "\<forall>p'. name (st p') = name (store a p')" using 2 by simp
    moreover have "\<forall>p'. length (sequence (st p'))
                    = length (sequence (store a p'))
                      + (if p' \<in> set (p # ps) \<and> seqmap c (name (store a p')) = None
                         then nat (Length c) else 0)"
    proof
      fix p'
      show "length (sequence (st p'))
                    = length (sequence (store a p'))
                      + (if p' \<in> set (p # ps) \<and> seqmap c (name (store a p')) = None
                         then nat (Length c) else 0)"
        using 3 [rule_format, of p'] np None lg by (cases "p' = p") auto
    qed
    ultimately show ?thesis by blast
  next
    case (Some q)
    then have "snd (GetSequenceChar c (name (store a p)))"
      by (simp add: GetSequenceChar_def)
    with Cons.prems(2) have r: "concat_pad c ps a = Some a1" by simp
    from Cons.IH [OF Cons.prems(1) r sub d] obtain st where
      1: "a1 = a\<lparr>store := st\<rparr>" and 2: "\<forall>p'. name (st p') = name (store a p')"
      and 3: "\<forall>p'. length (sequence (st p'))
                    = length (sequence (store a p'))
                      + (if p' \<in> set ps \<and> seqmap c (name (store a p')) = None
                         then nat (Length c) else 0)"
      by auto
    have "\<forall>p'. length (sequence (st p'))
                    = length (sequence (store a p'))
                      + (if p' \<in> set (p # ps) \<and> seqmap c (name (store a p')) = None
                         then nat (Length c) else 0)"
    proof
      fix p'
      show "length (sequence (st p'))
                    = length (sequence (store a p'))
                      + (if p' \<in> set (p # ps) \<and> seqmap c (name (store a p')) = None
                         then nat (Length c) else 0)"
        using 3 [rule_format, of p'] Some by (cases "p' = p") auto
    qed
    with 1 2 show ?thesis by blast
  qed
qed

lemma check_lengths_same:
  "\<forall>p \<in> set ps. int (length (sequence (st p))) = leng \<Longrightarrow> leng \<noteq> -1 \<Longrightarrow>
     check_lengths st ps leng err = (leng, err)"
  by (induction ps) auto

lemma check_lengths_start:
  assumes "\<forall>p \<in> set ps. length (sequence (st p)) = m"
  shows "check_lengths st ps (-1) err = (if ps = [] then -1 else int m, err)"
proof (cases ps)
  case Nil
  then show ?thesis by simp
next
  case (Cons p qs)
  with assms have "\<forall>p \<in> set qs. int (length (sequence (st p))) = int m" by simp
  from check_lengths_same [OF this, of err] Cons assms show ?thesis by simp
qed


lemma concat_rows_result:
  assumes "linked a" and "concat_rows c qs err a = Some (Return (err', a'))"
    and "distinct (map (\<lambda>q. name (store c q)) qs)"
    and "\<forall>q \<in> set qs. name (store c q) \<notin> D"
    and "\<forall>q \<in> set qs. length (sequence (store c q)) = lc"
    and "\<forall>p \<in> set (seqs a). length (sequence (store a p))
            = (if name (store a p) \<in> D then nat (alength a) + lc else nat (alength a))"
    and "err = None"
  shows "linked a' \<and> err' = None \<and> alength a' = alength a
       \<and> (\<forall>p \<in> set (seqs a'). length (sequence (store a' p))
            = (if name (store a' p) \<in> D \<union> (\<lambda>q. name (store c q)) ` set qs
               then nat (alength a) + lc else nat (alength a)))"
  using assms
proof (induction qs arbitrary: a err D)
  case Nil
  then show ?case by simp
next
  case (Cons q qs)
  let ?n = "name (store c q)"
  let ?sq = "sequence (store c q)"
  from Cons.prems(3) have dn: "distinct (map (\<lambda>q. name (store c q)) qs)"
    and nq: "?n \<notin> (\<lambda>q. name (store c q)) ` set qs"
    by auto
  from Cons.prems(4) have nD: "?n \<notin> D" by simp
  have D': "\<forall>q' \<in> set qs. name (store c q') \<notin> insert ?n D"
  proof
    fix q' assume q': "q' \<in> set qs"
    then have "name (store c q') \<in> (\<lambda>q. name (store c q)) ` set qs" by (rule imageI)
    with nq have "name (store c q') \<noteq> ?n" by metis
    with Cons.prems(4) q' show "name (store c q') \<notin> insert ?n D" by simp
  qed
  from Cons.prems(5) have lq: "length ?sq = lc"
    and lqs: "\<forall>q \<in> set qs. length (sequence (store c q)) = lc"
    by auto
  from Cons.prems(1) have old: "\<forall>p \<in> set (seqs a). p < nextref a \<and> seqmap a (name (store a p)) = Some p"
    and bk: "\<forall>n p. seqmap a n = Some p \<longrightarrow> p \<in> set (seqs a) \<and> name (store a p) = n"
    by (simp_all add: linked_def)
  show ?case
  proof (cases "seqmap a ?n")
    case None
    then have g0: "\<not> snd (GetSequenceChar a ?n)" by (simp add: GetSequenceChar_def)
    with Cons.prems(2) obtain g where g: "gap_run (Length a) = Some g"
      by (auto split: option.splits)
    then have len0: "0 \<le> alength a" and lg: "length g = nat (alength a)"
      by (auto simp: gap_run_def Length_def split: if_splits)
    let ?p = "nextref a"
    let ?a1 = "a\<lparr>alength := int (length g),
                   store := (store a)(?p := NewSequence ?n g (comment (store c q))),
                   nextref := nextref a + 1,
                   seqmap := (seqmap a)(?n \<mapsto> ?p),
                   seqs := seqs a @ [?p]\<rparr>"
    have add: "AddSequence ?n g (comment (store c q)) a = Some (None, ?a1)"
      using None len0 lg by (simp add: AddSequence_def AddSequenceChar_def new_name_absent)
    then have l1: "linked ?a1"
      using Cons.prems(1) unfolding AddSequence_def by (rule AddSequenceChar_linked [rotated])
    have m1: "seqmap ?a1 ?n = Some ?p" by simp
    note ap = appendToSequence_found [OF m1, of ?sq]
    let ?st2 = "(store ?a1)(?p := (store ?a1 ?p)\<lparr>sequence := sequence (store ?a1 ?p) @ ?sq\<rparr>)"
    let ?a2 = "?a1\<lparr>store := ?st2\<rparr>"
    from Cons.prems(2) g0 g add ap have r: "concat_rows c qs None ?a2 = Some (Return (err', a'))"
      by simp
    have l2: "linked ?a2" using l1 by (intro linked_store) simp_all
    have al2: "alength ?a2 = alength a" using lg len0 by simp
    have new: "?p \<notin> set (seqs a)" using old by auto
    have ne: "\<forall>p \<in> set (seqs a). name (store a p) \<noteq> ?n" using old None by auto
    have rows2: "\<forall>p \<in> set (seqs ?a2). length (sequence (store ?a2 p))
            = (if name (store ?a2 p) \<in> insert ?n D then nat (alength ?a2) + lc
               else nat (alength ?a2))"
    proof
      fix p assume p: "p \<in> set (seqs ?a2)"
      show "length (sequence (store ?a2 p))
            = (if name (store ?a2 p) \<in> insert ?n D then nat (alength ?a2) + lc
               else nat (alength ?a2))"
      proof (cases "p = ?p")
        case True
        then show ?thesis using lg lq by (simp add: NewSequence_def)
      next
        case False
        with p have pa: "p \<in> set (seqs a)" by simp
        with ne have "name (store a p) \<noteq> ?n" by simp
        with False pa Cons.prems(6) lg len0 show ?thesis by simp
      qed
    qed
    from Cons.IH [OF l2 r dn D' lqs rows2] lg len0 show ?thesis by simp
  next
    case (Some p)
    then have g1: "snd (GetSequenceChar a ?n)" by (simp add: GetSequenceChar_def)
    from bk Some have pa: "p \<in> set (seqs a)" and pn: "name (store a p) = ?n" by auto
    note ap = appendToSequence_found [OF Some, of ?sq]
    let ?st2 = "(store a)(p := (store a p)\<lparr>sequence := sequence (store a p) @ ?sq\<rparr>)"
    let ?a2 = "a\<lparr>store := ?st2\<rparr>"
    from Cons.prems(2) g1 ap have r: "concat_rows c qs None ?a2 = Some (Return (err', a'))"
      by simp
    have l2: "linked ?a2" using Cons.prems(1) by (intro linked_store) simp_all
    have ne: "\<forall>p' \<in> set (seqs a). p' \<noteq> p \<longrightarrow> name (store a p') \<noteq> ?n"
      using old Some by auto
    have rows2: "\<forall>p' \<in> set (seqs ?a2). length (sequence (store ?a2 p'))
            = (if name (store ?a2 p') \<in> insert ?n D then nat (alength ?a2) + lc
               else nat (alength ?a2))"
    proof
      fix p' assume p': "p' \<in> set (seqs ?a2)"
      show "length (sequence (store ?a2 p'))
            = (if name (store ?a2 p') \<in> insert ?n D then nat (alength ?a2) + lc
               else nat (alength ?a2))"
      proof (cases "p' = p")
        case True
        with Cons.prems(6) pa pn nD lq show ?thesis by simp
      next
        case False
        with p' ne have "name (store a p') \<noteq> ?n" by simp
        with False p' Cons.prems(6) show ?thesis by simp
      qed
    qed
    from Cons.IH [OF l2 r dn D' lqs rows2] show ?thesis by simp
  qed
qed

lemma linked_names_distinct:
  assumes "linked c"
  shows "distinct (map (\<lambda>q. name (store c q)) (seqs c))"
proof -
  have "inj_on (\<lambda>q. name (store c q)) (set (seqs c))"
  proof (rule inj_onI)
    fix x y assume x: "x \<in> set (seqs c)" and y: "y \<in> set (seqs c)"
      and eq: "name (store c x) = name (store c y)"
    from assms x have 1: "seqmap c (name (store c x)) = Some x" by (simp add: linked_def)
    from assms y have 2: "seqmap c (name (store c y)) = Some y" by (simp add: linked_def)
    have "Some x = seqmap c (name (store c x))" by (simp only: 1)
    also have "\<dots> = seqmap c (name (store c y))" by (simp only: eq)
    also have "\<dots> = Some y" by (simp only: 2)
    finally show "x = y" by simp
  qed
  with assms show ?thesis by (simp add: distinct_map linked_def)
qed

lemma Concat_wf:
  assumes "well_formed a" and "well_formed c" and "Concat a c = Some (Return (e, a'))"
  shows "well_formed a'"
proof (cases "Alphabet a \<noteq> Alphabet c")
  case True
  with assms show ?thesis by (simp add: Concat_def)
next
  case False
  from assms(1) have la: "linked a" and ra: "rows_ok a" by (simp_all add: well_formed_def)
  from assms(2) have lc: "linked c" and rc: "rows_ok c" by (simp_all add: well_formed_def)
  from assms(3) False obtain a1 where pad: "concat_pad c (seqs a) a = Some a1"
    by (auto simp: Concat_def split: option.splits)
  with assms(3) False obtain err a2 where
    rows: "concat_rows c (seqs c) None a1 = Some (Return (err, a2))"
    by (auto simp: Concat_def split: option.splits outcome.splits)
  from la have da: "distinct (seqs a)" by (simp add: linked_def)
  from concat_pad_result [OF la pad _ da] obtain st where
    a1: "a1 = a\<lparr>store := st\<rparr>" and names: "\<forall>p. name (st p) = name (store a p)"
    and lens: "\<forall>p. length (sequence (st p))
                    = length (sequence (store a p))
                      + (if p \<in> set (seqs a) \<and> seqmap c (name (store a p)) = None
                         then nat (Length c) else 0)"
    by auto
  have l1: "linked a1" unfolding a1 using la names by (rule linked_store)
  let ?D = "{n. seqmap c n = None}"
  let ?lc = "nat (Length c)"
  have rows1: "\<forall>p \<in> set (seqs a1). length (sequence (store a1 p))
            = (if name (store a1 p) \<in> ?D then nat (alength a1) + ?lc else nat (alength a1))"
  proof
    fix p assume "p \<in> set (seqs a1)"
    then have p: "p \<in> set (seqs a)" by (simp add: a1)
    with ra have "int (length (sequence (store a p))) = alength a" by (simp add: rows_ok_def)
    then have "length (sequence (store a p)) = nat (alength a)" by simp
    with lens p names
    show "length (sequence (store a1 p))
            = (if name (store a1 p) \<in> ?D then nat (alength a1) + ?lc else nat (alength a1))"
      by (simp add: a1)
  qed
  have dn: "distinct (map (\<lambda>q. name (store c q)) (seqs c))"
    using lc by (rule linked_names_distinct)
  have nD: "\<forall>q \<in> set (seqs c). name (store c q) \<notin> ?D"
    using lc by (auto simp: linked_def)
  have lq: "\<forall>q \<in> set (seqs c). length (sequence (store c q)) = ?lc"
  proof
    fix q assume "q \<in> set (seqs c)"
    with rc have "int (length (sequence (store c q))) = alength c" by (simp add: rows_ok_def)
    then show "length (sequence (store c q)) = ?lc" by (simp add: Length_def)
  qed
  from concat_rows_result [OF l1 rows dn nD lq rows1]
  have l2: "linked a2" and err: "err = None"
    and rows2: "\<forall>p \<in> set (seqs a2). length (sequence (store a2 p))
            = (if name (store a2 p) \<in> ?D \<union> (\<lambda>q. name (store c q)) ` set (seqs c)
               then nat (alength a1) + ?lc else nat (alength a1))"
    by simp_all
  have all: "?D \<union> (\<lambda>q. name (store c q)) ` set (seqs c) = UNIV"
  proof -
    have "n \<in> ?D \<union> (\<lambda>q. name (store c q)) ` set (seqs c)" for n
    proof (cases "seqmap c n")
      case None
      then show ?thesis by simp
    next
      case (Some q)
      with lc have "q \<in> set (seqs c)" "name (store c q) = n" by (auto simp: linked_def)
      then show ?thesis by auto
    qed
    then show ?thesis by auto
  qed
  have rows3: "\<forall>p \<in> set (seqs a2). length (sequence (store a2 p)) = nat (alength a1) + ?lc"
    using rows2 unfolding all by simp
  from assms(3) False pad rows err
  have a': "a' = a2\<lparr>alength := fst (check_lengths (store a2) (seqs a2) (-1) None)\<rparr>"
    by (auto simp: Concat_def split: prod.splits)
  have "rows_ok a'"
    unfolding a' using rows3 by (simp add: rows_ok_def check_lengths_start [OF rows3])
  moreover have "linked a'"
    unfolding a' using l2 by (simp add: linked_def)
  ultimately show ?thesis by (simp add: well_formed_def)
qed


lemma AddSequenceChar_returns:
  assumes "linked a"
  shows "\<exists>e a'. AddSequenceChar nm sq cm a = Some (e, a')"
proof -
  from assms have "finite (dom (seqmap a))" by (rule linked_finite_dom)
  then obtain t where "new_name (seqmap a) nm = Some t"
    using new_name_terminates by blast
  then show ?thesis by (simp add: AddSequenceChar_def)
qed

lemma appendToSequence_linked:
  assumes "linked a" and "appendToSequence n sq a = (e, a')"
  shows "linked a'"
proof (cases "seqmap a n")
  case None
  with assms show ?thesis by (simp add: appendToSequence_def)
next
  case (Some p)
  with assms(2) have "a' = a\<lparr>store := (store a)(p := (store a p)\<lparr>sequence := sequence (store a p) @ sq\<rparr>)\<rparr>"
    by (simp add: appendToSequence_def)
  moreover have "linked (a\<lparr>store := (store a)(p := (store a p)\<lparr>sequence := sequence (store a p) @ sq\<rparr>)\<rparr>)"
    using assms(1) by (rule linked_store) simp
  ultimately show ?thesis by simp
qed

lemma concat_rows_returns:
  "linked a \<Longrightarrow> \<exists>r. concat_rows c qs err a = Some r"
proof (induction qs arbitrary: a err)
  case Nil
  then show ?case by simp
next
  case (Cons q qs)
  show ?case
  proof (cases "snd (GetSequenceChar a (name (store c q)))")
    case True
    obtain e2 a2 where ap: "appendToSequence (name (store c q)) (sequence (store c q)) a = (e2, a2)"
      by (cases "appendToSequence (name (store c q)) (sequence (store c q)) a")
    from Cons.prems ap have "linked a2" by (rule appendToSequence_linked)
    from Cons.IH [OF this] obtain r where "concat_rows c qs e2 a2 = Some r" by blast
    with True ap show ?thesis by simp
  next
    case False
    show ?thesis
    proof (cases "gap_run (Length a)")
      case None
      with False show ?thesis by simp
    next
      case (Some g)
      from AddSequenceChar_returns [OF Cons.prems]
      obtain e1 a1 where ad: "AddSequenceChar (name (store c q)) g (comment (store c q)) a = Some (e1, a1)"
        by blast
      from Cons.prems ad have l1: "linked a1" by (rule AddSequenceChar_linked)
      obtain e2 a2 where ap: "appendToSequence (name (store c q)) (sequence (store c q)) a1 = (e2, a2)"
        by (cases "appendToSequence (name (store c q)) (sequence (store c q)) a1")
      from l1 ap have "linked a2" by (rule appendToSequence_linked)
      from Cons.IH [OF this] obtain r where "concat_rows c qs e2 a2 = Some r" by blast
      with False Some ad ap show ?thesis by (simp add: AddSequence_def)
    qed
  qed
qed

lemma Concat_returns:
  assumes "linked a"
  shows "\<exists>r. Concat a c = Some r"
proof (cases "Alphabet a \<noteq> Alphabet c")
  case True
  then show ?thesis by (simp add: Concat_def)
next
  case False
  show ?thesis
  proof (cases "concat_pad c (seqs a) a")
    case None
    with False show ?thesis by (simp add: Concat_def)
  next
    case (Some a1)
    from assms have "distinct (seqs a)" by (simp add: linked_def)
    with concat_pad_result [OF assms Some] obtain st
      where "a1 = a\<lparr>store := st\<rparr>" and "\<forall>p. name (st p) = name (store a p)"
      by auto
    with assms have "linked a1" by (simp add: linked_store)
    from concat_rows_returns [OF this] obtain r where "concat_rows c (seqs c) None a1 = Some r"
      by blast
    with False Some show ?thesis
      by (simp add: Concat_def split: outcome.splits prod.splits)
  qed
qed

lemma wf_rectangular: "well_formed a \<Longrightarrow> rectangular a"
  by (simp add: well_formed_def rectangular_def)

lemma NewAlign_wf: "NewAlign alpha = Return a \<Longrightarrow> well_formed a"
  by (auto simp: NewAlign_def empty_align_def well_formed_def linked_def rows_ok_def split: if_splits)

text \<open>
  The operations on well-formed alignments. An alignment is well formed when every row
  has the length that \<open>Length\<close> gives and the name mapping and the list hold the same
  rows, as after NewAlign. On a well-formed alignment each of AddSequenceChar,
  RemoveGapSites, TrimSequences, Compress, Mask and Concat (with a well-formed
  argument), when it returns, leaves a well-formed alignment, so all rows have the
  length \<open>Length\<close>, or there is none and it is \<open>-1\<close>. AddSequenceChar with a sequence of
  another length than the one of a non-empty alignment gives an error and the alignment
  as it was. AddSequenceChar always returns, and Concat returns or panics.
\<close>

theorem rectangular_after_mutation:
  assumes "well_formed a"
  shows "(\<forall>nm sq cm e a'. AddSequenceChar nm sq cm a = Some (e, a') \<longrightarrow> well_formed a' \<and> rectangular a')
       \<and> (\<forall>test ends a'. RemoveGapSites test ends a = Return a' \<longrightarrow> well_formed a' \<and> rectangular a')
       \<and> (\<forall>trimsize fromStart e a'.
              TrimSequences trimsize fromStart a = Return (e, a') \<longrightarrow> well_formed a' \<and> rectangular a')
       \<and> (\<forall>w a'. Compress a = Return (w, a') \<longrightarrow> well_formed a' \<and> rectangular a')
       \<and> (\<forall>x n start len e a'.
              Mask x n start len a = Return (e, a') \<longrightarrow> well_formed a' \<and> rectangular a')
       \<and> (\<forall>c e a'. well_formed c \<longrightarrow> Concat a c = Some (Return (e, a')) \<longrightarrow> well_formed a' \<and> rectangular a')
       \<and> (\<forall>nm sq cm. alength a \<noteq> -1 \<and> alength a \<noteq> int (length sq) \<longrightarrow>
              (\<exists>t. AddSequenceChar nm sq cm a = Some (Some (SeqLengthMismatch t), a)))
       \<and> (\<forall>nm sq cm. \<exists>r. AddSequenceChar nm sq cm a = Some r)
       \<and> (\<forall>c. \<exists>r. Concat a c = Some r)"
proof -
  from assms have l: "linked a" by (simp add: well_formed_def)
  have 1: "well_formed a' \<and> rectangular a'" if "AddSequenceChar nm sq cm a = Some (e, a')" for nm sq cm e a'
    using AddSequenceChar_wf [OF assms that] by (simp add: wf_rectangular)
  have 2: "well_formed a' \<and> rectangular a'" if "RemoveGapSites test ends a = Return a'" for test ends a'
    using RemoveGapSites_wf [OF assms that] by (simp add: wf_rectangular)
  have 3: "well_formed a' \<and> rectangular a'" if "TrimSequences trimsize fromStart a = Return (e, a')"
    for trimsize fromStart e a'
    using TrimSequences_wf [OF assms that] by (simp add: wf_rectangular)
  have 4: "well_formed a' \<and> rectangular a'" if "Compress a = Return (w, a')" for w a'
    using Compress_wf [OF assms that] by (simp add: wf_rectangular)
  have 5: "well_formed a' \<and> rectangular a'" if "Mask x n start len a = Return (e, a')" for x n start len e a'
    using Mask_wf [OF assms that] by (simp add: wf_rectangular)
  have 6: "well_formed a' \<and> rectangular a'" if "well_formed c" "Concat a c = Some (Return (e, a'))" for c e a'
    using Concat_wf [OF assms that] by (simp add: wf_rectangular)
  have 7: "\<exists>t. AddSequenceChar nm sq cm a = Some (Some (SeqLengthMismatch t), a)"
    if "alength a \<noteq> -1 \<and> alength a \<noteq> int (length sq)" for nm sq cm
    using AddSequenceChar_mismatch [of a sq nm cm] assms that by (simp add: well_formed_def)
  have c1: "\<forall>nm sq cm e a'. AddSequenceChar nm sq cm a = Some (e, a')
      \<longrightarrow> well_formed a' \<and> rectangular a'"
    by (intro allI impI) (erule 1)
  have c2: "\<forall>test ends a'. RemoveGapSites test ends a = Return a'
      \<longrightarrow> well_formed a' \<and> rectangular a'"
    by (intro allI impI) (erule 2)
  have c3: "\<forall>trimsize fromStart e a'. TrimSequences trimsize fromStart a = Return (e, a')
      \<longrightarrow> well_formed a' \<and> rectangular a'"
    by (intro allI impI) (erule 3)
  have c4: "\<forall>w a'. Compress a = Return (w, a') \<longrightarrow> well_formed a' \<and> rectangular a'"
    by (intro allI impI) (erule 4)
  have c5: "\<forall>x n start len e a'. Mask x n start len a = Return (e, a')
      \<longrightarrow> well_formed a' \<and> rectangular a'"
    by (intro allI impI) (erule 5)
  have c6: "\<forall>c e a'. well_formed c \<longrightarrow> Concat a c = Some (Return (e, a'))
      \<longrightarrow> well_formed a' \<and> rectangular a'"
    by (intro allI impI) (rule 6)
  have c7: "\<forall>nm sq cm. alength a \<noteq> -1 \<and> alength a \<noteq> int (length sq) \<longrightarrow>
      (\<exists>t. AddSequenceChar nm sq cm a = Some (Some (SeqLengthMismatch t), a))"
    by (intro allI impI) (erule 7)
  have c8: "\<forall>nm sq cm. \<exists>r. AddSequenceChar nm sq cm a = Some r"
    using AddSequenceChar_returns [OF l] by blast
  have c9: "\<forall>c. \<exists>r. Concat a c = Some r"
    using Concat_returns [OF l] by blast
  show ?thesis by (intro conjI c1 c2 c3 c4 c5 c6 c7 c8 c9)
qed

lemma wf_example: "well_formed (mk_align 1 [(''s1'', ''A-CT''), (''s2'', ''ACGT'')])"
  by (auto simp: well_formed_def linked_def rows_ok_def mk_align_def upt_rec split: if_splits)

lemma wf_example2: "well_formed (mk_align 1 [(''s2'', ''TT''), (''s3'', ''GG'')])"
  by (auto simp: well_formed_def linked_def rows_ok_def mk_align_def upt_rec split: if_splits)

theorem rectangular_after_mutation_witness:
  "well_formed (mk_align 1 [(''s1'', ''A-CT''), (''s2'', ''ACGT'')])
   \<and> (\<exists>e a'. AddSequenceChar ''s1'' ''AAAA'' [] (mk_align 1 [(''s1'', ''A-CT''), (''s2'', ''ACGT'')])
                  = Some (e, a') \<and> well_formed a' \<and> rectangular a')
   \<and> (\<exists>a'. RemoveGapSites (cutoff_test 0) False (mk_align 1 [(''s1'', ''A-CT''), (''s2'', ''ACGT'')])
                  = Return a' \<and> well_formed a' \<and> rectangular a')
   \<and> (\<exists>e a'. TrimSequences 1 True (mk_align 1 [(''s1'', ''A-CT''), (''s2'', ''ACGT'')])
                  = Return (e, a') \<and> well_formed a' \<and> rectangular a')
   \<and> (\<exists>w a'. Compress (mk_align 1 [(''s1'', ''A-CT''), (''s2'', ''ACGT'')])
                  = Return (w, a') \<and> well_formed a' \<and> rectangular a')
   \<and> (\<exists>e a'. Mask (CHR ''X'') (CHR ''N'') 1 2 (mk_align 1 [(''s1'', ''A-CT''), (''s2'', ''ACGT'')])
                  = Return (e, a') \<and> well_formed a' \<and> rectangular a')
   \<and> (\<exists>e a'. Concat (mk_align 1 [(''s1'', ''A-CT''), (''s2'', ''ACGT'')])
                         (mk_align 1 [(''s2'', ''TT''), (''s3'', ''GG'')])
                  = Some (Return (e, a')) \<and> well_formed a' \<and> rectangular a')
   \<and> (\<exists>t. AddSequenceChar ''s3'' ''AA'' [] (mk_align 1 [(''s1'', ''A-CT''), (''s2'', ''ACGT'')])
             = Some (Some (SeqLengthMismatch t), mk_align 1 [(''s1'', ''A-CT''), (''s2'', ''ACGT'')]))"
proof -
  let ?a = "mk_align 1 [(''s1'', ''A-CT''), (''s2'', ''ACGT'')]"
  let ?c = "mk_align 1 [(''s2'', ''TT''), (''s3'', ''GG'')]"
  note t = rectangular_after_mutation [OF wf_example]
  have "case AddSequenceChar ''s1'' ''AAAA'' [] ?a of Some r \<Rightarrow> True | None \<Rightarrow> False"
    by code_simp
  then obtain e1 a1 where "AddSequenceChar ''s1'' ''AAAA'' [] ?a = Some (e1, a1)"
    by (auto split: option.splits)
  with t have 1: "\<exists>e a'. AddSequenceChar ''s1'' ''AAAA'' [] ?a = Some (e, a') \<and> well_formed a' \<and> rectangular a'"
    by auto
  have "case RemoveGapSites (cutoff_test 0) False ?a of Return r \<Rightarrow> True | _ \<Rightarrow> False"
    by code_simp
  then obtain a2 where "RemoveGapSites (cutoff_test 0) False ?a = Return a2"
    by (auto split: outcome.splits)
  with t have 2: "\<exists>a'. RemoveGapSites (cutoff_test 0) False ?a = Return a' \<and> well_formed a' \<and> rectangular a'"
    by auto
  have "case TrimSequences 1 True ?a of Return r \<Rightarrow> True | _ \<Rightarrow> False"
    by code_simp
  then obtain e3 a3 where "TrimSequences 1 True ?a = Return (e3, a3)"
    by (auto split: outcome.splits)
  with t have 3: "\<exists>e a'. TrimSequences 1 True ?a = Return (e, a') \<and> well_formed a' \<and> rectangular a'"
    by auto
  have "case Compress ?a of Return r \<Rightarrow> True | _ \<Rightarrow> False"
    by code_simp
  then obtain w4 a4 where "Compress ?a = Return (w4, a4)"
    by (auto split: outcome.splits)
  with t have 4: "\<exists>w a'. Compress ?a = Return (w, a') \<and> well_formed a' \<and> rectangular a'"
    by auto
  have "case Mask (CHR ''X'') (CHR ''N'') 1 2 ?a of Return r \<Rightarrow> True | _ \<Rightarrow> False"
    by code_simp
  then obtain e5 a5 where "Mask (CHR ''X'') (CHR ''N'') 1 2 ?a = Return (e5, a5)"
    by (auto split: outcome.splits)
  with t have 5: "\<exists>e a'. Mask (CHR ''X'') (CHR ''N'') 1 2 ?a = Return (e, a') \<and> well_formed a' \<and> rectangular a'"
    by auto
  have "case Concat ?a ?c of Some (Return r) \<Rightarrow> True | _ \<Rightarrow> False"
    by code_simp
  then obtain e6 a6 where "Concat ?a ?c = Some (Return (e6, a6))"
    by (auto split: option.splits outcome.splits)
  with t wf_example2 have 6: "\<exists>e a'. Concat ?a ?c = Some (Return (e, a')) \<and> well_formed a' \<and> rectangular a'"
    by auto
  have "alength ?a \<noteq> -1 \<and> alength ?a \<noteq> int (length ''AA'')"
    by (simp add: mk_align_def)
  with t have 7: "\<exists>t. AddSequenceChar ''s3'' ''AA'' [] ?a = Some (Some (SeqLengthMismatch t), ?a)"
    by auto
  from wf_example 1 2 3 4 5 6 7 show ?thesis by simp
qed


section \<open>Compress on symbols outside ASCII\<close>

text \<open>
  C4. The claim fails on the code: the callback of \<^verbatim>\<open>r.Walk\<close> takes the index of the
  row from \<^verbatim>\<open>for seq, c := range pattern\<close>, which on a string is the offset of the first
  byte of the symbol, not its position. From the rows s1, of the one symbol U+00E9 (two
  bytes in the string), and s2 = A, an alignment of length 1, the pattern gives the
  offsets 0 and 2, and \<^verbatim>\<open>a.seqs[2]\<close> panics: Compress returns no weights. With the two
  rows in the other order the offsets are 0 and 1 and Compress returns the weight 1.
\<close>

theorem Compress_nonascii_panics:
  "rectangular (mk_align 3 [(''s1'', [CHR 0xE9]), (''s2'', ''A'')])
   \<and> Length (mk_align 3 [(''s1'', [CHR 0xE9]), (''s2'', ''A'')]) = 1
   \<and> NbSequences (mk_align 3 [(''s1'', [CHR 0xE9]), (''s2'', ''A'')]) = 2
   \<and> range_string 0 [CHR 0xE9, CHR ''A''] = [(0, CHR 0xE9), (2, CHR ''A'')]
   \<and> Compress (mk_align 3 [(''s1'', [CHR 0xE9]), (''s2'', ''A'')]) = Panic
   \<and> (\<exists>a'. Compress (mk_align 3 [(''s1'', ''A''), (''s2'', [CHR 0xE9])]) = Return ([1], a'))"
proof -
  let ?a = "mk_align 3 [(''s1'', [CHR 0xE9]), (''s2'', ''A'')]"
  let ?b = "mk_align 3 [(''s1'', ''A''), (''s2'', [CHR 0xE9])]"
  have 1: "rectangular ?a" and 2: "Length ?a = 1" and 3: "NbSequences ?a = 2"
    and 4: "range_string 0 [CHR 0xE9, CHR ''A''] = [(0, CHR 0xE9), (2, CHR ''A'')]"
    by code_simp+
  have "case Compress ?a of Panic \<Rightarrow> True | _ \<Rightarrow> False"
    by code_simp
  then have 5: "Compress ?a = Panic"
    by (cases "Compress ?a") simp_all
  have "case Compress ?b of Return (w, a') \<Rightarrow> w = [1] | _ \<Rightarrow> False"
    by code_simp
  then have 6: "\<exists>a'. Compress ?b = Return ([1], a')"
    by (cases "Compress ?b") auto
  from 1 2 3 4 5 6 show ?thesis by simp
qed

section \<open>Concat after RemoveGapSeqs\<close>

text \<open>
  C1. The claim fails on the code. The alignments a, of the rows s1 = AA and s2 = CC,
  and c, of the rows s1 = G- and s2 = TT, are rectangular. \<open>c.RemoveGapSeqs(0)\<close> takes
  the row s1 out of the list of c and leaves it in the mapping of c (the defect of C3),
  and c is still rectangular. Then \<open>a.Concat(c)\<close> finds both names of a in the mapping
  of c and adds no gaps to s1; it appends TT to s2, the one row in the list of c. It
  returns the error of its last loop with the alignment changed: the rows are AA and
  CCTT and the length is 2.
\<close>

theorem Concat_after_RemoveGapSeqs_not_rectangular:
  "rectangular (mk_align 1 [(''s1'', ''AA''), (''s2'', ''CC'')])
   \<and> rectangular (mk_align 1 [(''s1'', ''G-''), (''s2'', ''TT'')])
   \<and> (\<exists>c' a'. RemoveGapSeqs (cutoff_test 0) (mk_align 1 [(''s1'', ''G-''), (''s2'', ''TT'')]) = Return c'
          \<and> rectangular c'
          \<and> Concat (mk_align 1 [(''s1'', ''AA''), (''s2'', ''CC'')]) c'
              = Some (Return (Some ConcatLengthMismatch, a'))
          \<and> map (\<lambda>p. sequence (store a' p)) (seqs a') = [''AA'', ''CCTT'']
          \<and> Length a' = 2
          \<and> \<not> rectangular a')"
proof -
  let ?a = "mk_align 1 [(''s1'', ''AA''), (''s2'', ''CC'')]"
  let ?c = "mk_align 1 [(''s1'', ''G-''), (''s2'', ''TT'')]"
  have 1: "rectangular ?a" and 2: "rectangular ?c"
    by code_simp+
  have "case RemoveGapSeqs (cutoff_test 0) ?c of
          Return c' \<Rightarrow>
            rectangular c'
            \<and> (case Concat ?a c' of
                 Some (Return (e, a')) \<Rightarrow>
                   e = Some ConcatLengthMismatch
                   \<and> map (\<lambda>p. sequence (store a' p)) (seqs a') = [''AA'', ''CCTT'']
                   \<and> Length a' = 2 \<and> \<not> rectangular a'
               | _ \<Rightarrow> False)
        | _ \<Rightarrow> False"
    by code_simp
  then obtain c' where r: "RemoveGapSeqs (cutoff_test 0) ?c = Return c'"
    and rc: "rectangular c'"
    and k: "case Concat ?a c' of
              Some (Return (e, a')) \<Rightarrow>
                e = Some ConcatLengthMismatch
                \<and> map (\<lambda>p. sequence (store a' p)) (seqs a') = [''AA'', ''CCTT'']
                \<and> Length a' = 2 \<and> \<not> rectangular a'
            | _ \<Rightarrow> False"
    by (cases "RemoveGapSeqs (cutoff_test 0) ?c") simp_all
  from k obtain a' where f1: "Concat ?a c' = Some (Return (Some ConcatLengthMismatch, a'))"
    and f2: "map (\<lambda>p. sequence (store a' p)) (seqs a') = [''AA'', ''CCTT'']"
    and f3: "Length a' = 2" and f4: "\<not> rectangular a'"
    by (auto split: option.splits outcome.splits prod.splits)
  show ?thesis
    apply (intro conjI 1 2)
    apply (rule exI [of _ c'])
    apply (rule exI [of _ a'])
    apply (intro conjI r rc f1 f2 f3 f4)
    done
qed

section \<open>Properties of the K2P distance\<close>

lemma fgt_zero_nonneg: "fgt d (Finite 0) \<Longrightarrow> nonneg d"
  by (cases d) (simp_all add: fgt_def)

lemma Distance_cases:
  assumes "cm seq1 seq2 (selectedSites m) weights = (trS, trV, x, y, tot)"
  shows "Distance rnd lg cm m seq1 seq2 weights
         = (if fgt (k2p_dist rnd lg (fquot rnd trS tot) (fquot rnd trV tot)) (Finite 0)
            then k2p_dist rnd lg (fquot rnd trS tot) (fquot rnd trV tot)
            else Finite 0)"
  using assms by (simp add: Distance_def Let_def)

lemma Distance_nonneg: "nonneg (Distance rnd lg cm m seq1 seq2 weights)"
proof -
  obtain trS trV x y tot
    where c: "cm seq1 seq2 (selectedSites m) weights = (trS, trV, x, y, tot)"
    by (cases "cm seq1 seq2 (selectedSites m) weights") auto
  have "Distance rnd lg cm m seq1 seq2 weights
         = (if fgt (k2p_dist rnd lg (fquot rnd trS tot) (fquot rnd trV tot)) (Finite 0)
            then k2p_dist rnd lg (fquot rnd trS tot) (fquot rnd trV tot)
            else Finite 0)"
    using c by (rule Distance_cases)
  then show ?thesis
    by (simp add: fgt_zero_nonneg)
qed

lemma k2p_dist_exact:
  assumes "2 * P + Q < 1" and "2 * Q < 1"
  shows "k2p_dist Finite (\<lambda>x. Finite (ln x)) (Finite P) (Finite Q) = Finite (k2p_formula P Q)"
  using assms by (simp add: k2p_dist_def k2p_formula_def)

text \<open>
  C9. For whatever numbers \<^verbatim>\<open>countMutations\<close> gives, whatever the rounding and the values
  of \<^verbatim>\<open>math.Log\<close>, Distance gives a value that is not negative and not NaN: it is the
  value \<open>dist\<close> of the expression over the two proportions when the comparison
  \<open>dist > 0\<close> holds, and 0 when it does not, which is so when \<open>dist\<close> is NaN. Where the
  counts are finite, the total is not zero and both arguments of the logarithms are
  positive, the result in exact arithmetic is the distance of the formula when that is
  positive and 0 otherwise.
\<close>

theorem Distance_never_negative:
  "nonneg (Distance rnd lg cm m seq1 seq2 weights)
   \<and> Distance rnd lg cm m seq1 seq2 weights \<noteq> NaN
   \<and> (\<forall>trS trV x y tot. cm seq1 seq2 (selectedSites m) weights = (trS, trV, x, y, tot) \<longrightarrow>
        Distance rnd lg cm m seq1 seq2 weights
        = (if fgt (k2p_dist rnd lg (fquot rnd trS tot) (fquot rnd trV tot)) (Finite 0)
           then k2p_dist rnd lg (fquot rnd trS tot) (fquot rnd trV tot)
           else Finite 0))
   \<and> (\<forall>trS trV x y tot.
        cm seq1 seq2 (selectedSites m) weights = (Finite trS, Finite trV, x, y, Finite tot)
        \<and> tot \<noteq> 0 \<and> 2 * (trS / tot) + trV / tot < 1 \<and> 2 * (trV / tot) < 1 \<longrightarrow>
        Distance Finite (\<lambda>x. Finite (ln x)) cm m seq1 seq2 weights
        = Finite (max 0 (k2p_formula (trS / tot) (trV / tot))))"
proof -
  have 1: "nonneg (Distance rnd lg cm m seq1 seq2 weights)"
    by (rule Distance_nonneg)
  then have 2: "Distance rnd lg cm m seq1 seq2 weights \<noteq> NaN"
    by (cases "Distance rnd lg cm m seq1 seq2 weights") simp_all
  have 3: "\<forall>trS trV x y tot. cm seq1 seq2 (selectedSites m) weights = (trS, trV, x, y, tot) \<longrightarrow>
        Distance rnd lg cm m seq1 seq2 weights
        = (if fgt (k2p_dist rnd lg (fquot rnd trS tot) (fquot rnd trV tot)) (Finite 0)
           then k2p_dist rnd lg (fquot rnd trS tot) (fquot rnd trV tot)
           else Finite 0)"
    by (intro allI impI) (rule Distance_cases)
  have 4: "\<forall>trS trV x y tot.
        cm seq1 seq2 (selectedSites m) weights = (Finite trS, Finite trV, x, y, Finite tot)
        \<and> tot \<noteq> 0 \<and> 2 * (trS / tot) + trV / tot < 1 \<and> 2 * (trV / tot) < 1 \<longrightarrow>
        Distance Finite (\<lambda>x. Finite (ln x)) cm m seq1 seq2 weights
        = Finite (max 0 (k2p_formula (trS / tot) (trV / tot)))"
  proof (intro allI impI)
    fix trS trV x y tot
    assume h: "cm seq1 seq2 (selectedSites m) weights = (Finite trS, Finite trV, x, y, Finite tot)
        \<and> tot \<noteq> 0 \<and> 2 * (trS / tot) + trV / tot < 1 \<and> 2 * (trV / tot) < 1"
    then have c: "cm seq1 seq2 (selectedSites m) weights = (Finite trS, Finite trV, x, y, Finite tot)"
      and t: "tot \<noteq> 0" and p: "2 * (trS / tot) + trV / tot < 1" and q: "2 * (trV / tot) < 1"
      by simp_all
    have d: "k2p_dist Finite (\<lambda>x. Finite (ln x)) (fquot Finite (Finite trS) (Finite tot))
               (fquot Finite (Finite trV) (Finite tot))
             = Finite (k2p_formula (trS / tot) (trV / tot))"
      using t k2p_dist_exact [OF p q] by simp
    have "Distance Finite (\<lambda>x. Finite (ln x)) cm m seq1 seq2 weights
         = (if fgt (k2p_dist Finite (\<lambda>x. Finite (ln x)) (fquot Finite (Finite trS) (Finite tot))
                      (fquot Finite (Finite trV) (Finite tot))) (Finite 0)
            then k2p_dist Finite (\<lambda>x. Finite (ln x)) (fquot Finite (Finite trS) (Finite tot))
                   (fquot Finite (Finite trV) (Finite tot))
            else Finite 0)"
      using c by (rule Distance_cases)
    then show "Distance Finite (\<lambda>x. Finite (ln x)) cm m seq1 seq2 weights
        = Finite (max 0 (k2p_formula (trS / tot) (trV / tot)))"
      unfolding d by (simp add: fgt_def max_def)
  qed
  show ?thesis by (intro conjI 1 2 3 4)
qed

text \<open>
  With a transition count 1 and a transversion count 1 of 4 sites the two proportions
  are 1/4. With 2 transitions of 4 sites the first logarithm is of zero and the
  distance is plus infinity; with 4 transitions of 4 it is of \<open>-1\<close>, and with a total
  of zero the proportions are NaN: the distance is 0 in both cases.
\<close>

theorem Distance_never_negative_witness:
  "nonneg (Distance Finite (\<lambda>x. Finite (ln x))
             (\<lambda>s1 s2 sel w. (Finite 1, Finite 1, Finite 0, Finite 0, Finite 4))
             (NewK2PModel False) ''AGCA'' ''GGAA'' [])
   \<and> Distance Finite (\<lambda>x. Finite (ln x))
        (\<lambda>s1 s2 sel w. (Finite 1, Finite 1, Finite 0, Finite 0, Finite 4))
        (NewK2PModel False) ''AGCA'' ''GGAA'' []
      = Finite (max 0 (k2p_formula (1 / 4) (1 / 4)))
   \<and> Distance Finite (\<lambda>x. Finite (ln x))
        (\<lambda>s1 s2 sel w. (Finite 2, Finite 0, Finite 0, Finite 0, Finite 4))
        (NewK2PModel False) ''AGCA'' ''GACA'' []
      = PosInf
   \<and> Distance Finite (\<lambda>x. Finite (ln x))
        (\<lambda>s1 s2 sel w. (Finite 4, Finite 0, Finite 0, Finite 0, Finite 4))
        (NewK2PModel False) ''AGCT'' ''GATC'' []
      = Finite 0
   \<and> Distance Finite (\<lambda>x. Finite (ln x))
        (\<lambda>s1 s2 sel w. (Finite 0, Finite 0, Finite 0, Finite 0, Finite 0))
        (NewK2PModel False) [] [] []
      = Finite 0"
proof -
  let ?lg = "\<lambda>x. Finite (ln x)"
  let ?cm = "\<lambda>s1 s2 sel w. (Finite 1, Finite 1, Finite 0, Finite 0, Finite (4::real))"
  note t = Distance_never_negative [of Finite ?lg ?cm "NewK2PModel False" "''AGCA''" "''GGAA''" "[]"]
  from t have 1: "nonneg (Distance Finite ?lg ?cm (NewK2PModel False) ''AGCA'' ''GGAA'' [])"
    by (rule conjunct1)
  from t have "\<forall>trS trV x y tot.
        ?cm ''AGCA'' ''GGAA'' (selectedSites (NewK2PModel False)) [] = (Finite trS, Finite trV, x, y, Finite tot)
        \<and> tot \<noteq> 0 \<and> 2 * (trS / tot) + trV / tot < 1 \<and> 2 * (trV / tot) < 1 \<longrightarrow>
        Distance Finite ?lg ?cm (NewK2PModel False) ''AGCA'' ''GGAA'' []
        = Finite (max 0 (k2p_formula (trS / tot) (trV / tot)))"
    by (intro conjunct2 [OF conjunct2 [OF conjunct2 [OF t]]])
  then have 2: "Distance Finite ?lg ?cm (NewK2PModel False) ''AGCA'' ''GGAA'' []
        = Finite (max 0 (k2p_formula (1 / 4) (1 / 4)))"
    by simp
  have 3: "Distance Finite ?lg (\<lambda>s1 s2 sel w. (Finite 2, Finite 0, Finite 0, Finite 0, Finite 4))
        (NewK2PModel False) ''AGCA'' ''GACA'' [] = PosInf"
    by (simp add: Distance_def k2p_dist_def fgt_def signed_inf_def)
  have 4: "Distance Finite ?lg (\<lambda>s1 s2 sel w. (Finite 4, Finite 0, Finite 0, Finite 0, Finite 4))
        (NewK2PModel False) ''AGCT'' ''GATC'' [] = Finite 0"
    by (simp add: Distance_def k2p_dist_def fgt_def signed_inf_def)
  have 5: "Distance Finite ?lg (\<lambda>s1 s2 sel w. (Finite 0, Finite 0, Finite 0, Finite 0, Finite 0))
        (NewK2PModel False) [] [] [] = Finite 0"
    by (simp add: Distance_def k2p_dist_def fgt_def signed_inf_def)
  from 1 2 3 4 5 show ?thesis by simp
qed

end
